theory Spec2Isabelle
  imports Complex_Main "HOL-Library.Word"
begin

unbundle bit_operations_syntax

section \<open>Data model\<close>

text \<open>
  The sketches run on 32-bit microcontrollers: \<open>unsigned int\<close>, \<open>uint32_t\<close> and
  \<open>size_t\<close> are 32-bit words whose arithmetic wraps around, \<open>unsigned char\<close> and
  \<open>uint8_t\<close> are bytes. A buffer is the list of the bytes it holds; its length is its
  declared size. Reading or writing a buffer at an index that is not below its length is
  undefined behaviour in C and is \<open>None\<close> here, and \<open>None\<close> propagates to the caller.
  The input and the output buffer of a function are distinct objects, as they are at every
  call in the sketches; a function returns the contents of its output buffer.
\<close>

type_synonym byte = "8 word"
type_synonym uint = "32 word"

datatype EimlFormat = EIML_RESERVED | EIML_RGB888

datatype EimlRet = EIML_OK | EIML_ERROR

record EimlHeader =
  format :: byte
  width :: uint
  height :: uint

definition rd :: "byte list \<Rightarrow> uint \<Rightarrow> byte option" where
  "rd buf i = (if unat i < length buf then Some (buf ! unat i) else None)"

definition wr :: "byte list \<Rightarrow> uint \<Rightarrow> byte \<Rightarrow> byte list option" where
  "wr buf i v = (if unat i < length buf then Some (buf[unat i := v]) else None)"

text \<open>A loop counter below its bound is incremented without wrapping.\<close>

lemma unat_inc: "b < n \<Longrightarrow> unat (b + 1) = Suc (unat b)" for b n :: uint
proof -
  assume "b < n"
  then have "unat b < unat n" by (simp add: word_less_nat_alt)
  moreover have "unat n < 2 ^ 32" using unsigned_less [of n] by simp
  ultimately have "Suc (unat b) < 2 ^ 32" by simp
  then show ?thesis by (simp add: unat_word_ariths)
qed

lemma counter_decreases: "b < n \<Longrightarrow> unat n - unat (b + 1) < unat n - unat b" for b n :: uint
  by (simp add: unat_inc word_less_nat_alt)

section \<open>Centre crop\<close>

text \<open>
  The three nested \<open>for\<close> loops of \<open>eiml_crop_center\<close>, innermost first. Each loop is a
  function of its counter; the counters and offsets are \<open>unsigned int\<close>. The local
  \<open>out_buf_len\<close> of the source is computed and never used, and has no counterpart here.
\<close>

function crop_bytes ::
  "byte list \<Rightarrow> byte list \<Rightarrow> uint \<Rightarrow> uint \<Rightarrow> uint \<Rightarrow> uint \<Rightarrow> uint \<Rightarrow> uint \<Rightarrow> byte list option"
where
  "crop_bytes in_pixels out_pixels in_y_offset in_x_offset out_y_offset out_x_offset
      bytes_per_pixel b =
     (if b < bytes_per_pixel then
        (case rd in_pixels (in_y_offset + in_x_offset + b) of
           None \<Rightarrow> None
         | Some v \<Rightarrow>
            (case wr out_pixels (out_y_offset + out_x_offset + b) v of
               None \<Rightarrow> None
             | Some out_pixels' \<Rightarrow>
                 crop_bytes in_pixels out_pixels' in_y_offset in_x_offset out_y_offset
                   out_x_offset bytes_per_pixel (b + 1)))
      else Some out_pixels)"
  by pat_completeness auto
termination
  by (relation "measure (\<lambda>(i, out, iy, ix, oy, ox, bpp, b). unat bpp - unat b)")
     (simp_all add: counter_decreases)

function crop_row ::
  "byte list \<Rightarrow> byte list \<Rightarrow> uint \<Rightarrow> uint \<Rightarrow> uint \<Rightarrow> uint \<Rightarrow> uint \<Rightarrow> uint \<Rightarrow> byte list option"
where
  "crop_row in_pixels out_pixels in_width out_width bytes_per_pixel in_y_offset out_y_offset x =
     (if x < out_width then
        (let in_x_offset = bytes_per_pixel * ((in_width - out_width) div 2 + x);
             out_x_offset = bytes_per_pixel * x
         in case crop_bytes in_pixels out_pixels in_y_offset in_x_offset out_y_offset
                   out_x_offset bytes_per_pixel 0 of
              None \<Rightarrow> None
            | Some out_pixels' \<Rightarrow>
                crop_row in_pixels out_pixels' in_width out_width bytes_per_pixel in_y_offset
                  out_y_offset (x + 1))
      else Some out_pixels)"
  by pat_completeness auto
termination
  by (relation "measure (\<lambda>(i, out, iw, ow, bpp, iy, oy, x). unat ow - unat x)")
     (simp_all add: counter_decreases)

function crop_rows ::
  "byte list \<Rightarrow> uint \<Rightarrow> uint \<Rightarrow> byte list \<Rightarrow> uint \<Rightarrow> uint \<Rightarrow> uint \<Rightarrow> uint \<Rightarrow> byte list option"
where
  "crop_rows in_pixels in_width in_height out_pixels out_width out_height bytes_per_pixel y =
     (if y < out_height then
        (let in_y_offset = bytes_per_pixel * in_width * ((in_height - out_height) div 2 + y);
             out_y_offset = bytes_per_pixel * out_width * y
         in case crop_row in_pixels out_pixels in_width out_width bytes_per_pixel in_y_offset
                   out_y_offset 0 of
              None \<Rightarrow> None
            | Some out_pixels' \<Rightarrow>
                crop_rows in_pixels in_width in_height out_pixels' out_width out_height
                  bytes_per_pixel (y + 1))
      else Some out_pixels)"
  by pat_completeness auto
termination
  by (relation "measure (\<lambda>(i, iw, ih, out, ow, oh, bpp, y). unat oh - unat y)")
     (simp_all add: counter_decreases)

text \<open>
  \<open>eiml_crop_center\<close> returns its code together with the contents of \<open>out_pixels\<close>
  when it returns.
\<close>

definition eiml_crop_center ::
  "byte list \<Rightarrow> uint \<Rightarrow> uint \<Rightarrow> byte list \<Rightarrow> uint \<Rightarrow> uint \<Rightarrow> uint
     \<Rightarrow> (EimlRet \<times> byte list) option"
where
  "eiml_crop_center in_pixels in_width in_height out_pixels out_width out_height
      bytes_per_pixel =
     (if in_width < out_width \<or> in_height < out_height then Some (EIML_ERROR, out_pixels)
      else
        (case crop_rows in_pixels in_width in_height out_pixels out_width out_height
                bytes_per_pixel 0 of
           None \<Rightarrow> None
         | Some out_pixels' \<Rightarrow> Some (EIML_OK, out_pixels')))"

text \<open>
  The centred rectangle, as the specification describes it: row \<open>y\<close> of the result is the
  run of \<open>ow\<close> pixels of input row \<open>(ih - oh) div 2 + y\<close> that starts at pixel
  \<open>(iw - ow) div 2\<close>. Sizes are natural numbers here, and nothing wraps.
\<close>

definition centered_rect :: "byte list \<Rightarrow> nat \<Rightarrow> nat \<Rightarrow> nat \<Rightarrow> nat \<Rightarrow> nat \<Rightarrow> byte list" where
  "centered_rect inp iw ih ow oh bpp =
     concat (map (\<lambda>y. take (ow * bpp)
                         (drop ((((ih - oh) div 2 + y) * iw + (iw - ow) div 2) * bpp) inp))
                 [0..<oh])"


section \<open>RGB565 to RGB888\<close>

text \<open>
  The operands of \<open>&\<close>, \<open>|\<close>, \<open><<\<close> and \<open>>>\<close> are promoted to \<open>int\<close>; the values stay
  between 0 and \<open>255 * 32\<close>, so the 32-bit \<open>int\<close> never overflows and is the integer it
  denotes. Assigning the result to an \<open>unsigned char\<close> keeps its low eight bits.
\<close>

definition rgb565_r :: "byte \<Rightarrow> byte" where
  "rgb565_r hi = word_of_int (uint hi AND 0xF8)"

definition rgb565_g :: "byte \<Rightarrow> byte \<Rightarrow> byte" where
  "rgb565_g hi lo = word_of_int (push_bit 5 (uint hi) OR drop_bit 3 (uint lo AND 0xE0))"

definition rgb565_b :: "byte \<Rightarrow> byte" where
  "rgb565_b lo = word_of_int (push_bit 3 (uint lo))"

function rgb565_pixels :: "byte list \<Rightarrow> byte list \<Rightarrow> uint \<Rightarrow> uint \<Rightarrow> byte list option" where
  "rgb565_pixels in_pixels out_pixels num_pixels i =
     (if i < num_pixels then
        (case rd in_pixels (2 * i) of
           None \<Rightarrow> None
         | Some hi \<Rightarrow>
            (case rd in_pixels (2 * i + 1) of
               None \<Rightarrow> None
             | Some lo \<Rightarrow>
                (let r = rgb565_r hi; g = rgb565_g hi lo; b = rgb565_b lo
                 in case wr out_pixels (3 * i) r of
                      None \<Rightarrow> None
                    | Some out1 \<Rightarrow>
                       (case wr out1 (3 * i + 1) g of
                          None \<Rightarrow> None
                        | Some out2 \<Rightarrow>
                           (case wr out2 (3 * i + 2) b of
                              None \<Rightarrow> None
                            | Some out3 \<Rightarrow>
                                rgb565_pixels in_pixels out3 num_pixels (i + 1))))))
      else Some out_pixels)"
  by pat_completeness auto
termination
  by (relation "measure (\<lambda>(i, out, n, k). unat n - unat k)")
     (simp_all add: counter_decreases)

definition eiml_rgb565_to_rgb888 ::
  "byte list \<Rightarrow> byte list \<Rightarrow> uint \<Rightarrow> (EimlRet \<times> byte list) option"
where
  "eiml_rgb565_to_rgb888 in_pixels out_pixels num_pixels =
     (case rgb565_pixels in_pixels out_pixels num_pixels 0 of
        None \<Rightarrow> None
      | Some out_pixels' \<Rightarrow> Some (EIML_OK, out_pixels'))"

text \<open>
  The transform as the specification words it, on bytes: the high byte is the first byte
  of a sample and the low byte the second.
\<close>

definition rgb888_of :: "byte \<Rightarrow> byte \<Rightarrow> byte list" where
  "rgb888_of hi lo =
     [hi AND 0xF8, push_bit 5 (hi AND 0x07) OR drop_bit 3 (lo AND 0xE0), push_bit 3 lo]"

definition rgb888_image :: "byte list \<Rightarrow> nat \<Rightarrow> byte list" where
  "rgb888_image inp n = concat (map (\<lambda>i. rgb888_of (inp ! (2 * i)) (inp ! (2 * i + 1))) [0..<n])"

section \<open>Frame header\<close>

definition EIML_HEADER_SIZE :: int where "EIML_HEADER_SIZE = 12"
definition EIML_SOF_SIZE :: int where "EIML_SOF_SIZE = 3"
definition EIML_SOF :: "byte list" where "EIML_SOF = [0xFF, 0xA0, 0xFF]"

text \<open>Array access with an \<open>int\<close> index.\<close>

definition rd_int :: "byte list \<Rightarrow> int \<Rightarrow> byte option" where
  "rd_int buf i = (if 0 \<le> i \<and> nat i < length buf then Some (buf ! nat i) else None)"

definition wr_int :: "byte list \<Rightarrow> int \<Rightarrow> byte \<Rightarrow> byte list option" where
  "wr_int buf i v = (if 0 \<le> i \<and> nat i < length buf then Some (buf[nat i := v]) else None)"

function copy_sof :: "byte list \<Rightarrow> int \<Rightarrow> byte list option" where
  "copy_sof out_header i =
     (if i < EIML_SOF_SIZE then
        (case rd_int EIML_SOF i of
           None \<Rightarrow> None
         | Some v \<Rightarrow>
            (case wr_int out_header i v of
               None \<Rightarrow> None
             | Some out_header' \<Rightarrow> copy_sof out_header' (i + 1)))
      else Some out_header)"
  by pat_completeness auto
termination
  by (relation "measure (\<lambda>(out, i). nat (EIML_SOF_SIZE - i))") simp_all

function copy_width :: "EimlHeader \<Rightarrow> byte list \<Rightarrow> int \<Rightarrow> byte list option" where
  "copy_width header out_header i =
     (if i < 4 then
        (case wr_int out_header (EIML_SOF_SIZE + 1 + i)
                (ucast (drop_bit (nat (i * 8)) (width header) AND 0xFF)) of
           None \<Rightarrow> None
         | Some out_header' \<Rightarrow> copy_width header out_header' (i + 1))
      else Some out_header)"
  by pat_completeness auto
termination
  by (relation "measure (\<lambda>(header, out, i). nat (4 - i))") simp_all

function copy_height :: "EimlHeader \<Rightarrow> byte list \<Rightarrow> int \<Rightarrow> byte list option" where
  "copy_height header out_header i =
     (if i < 4 then
        (case wr_int out_header (EIML_SOF_SIZE + 5 + i)
                (ucast (drop_bit (nat (i * 8)) (height header) AND 0xFF)) of
           None \<Rightarrow> None
         | Some out_header' \<Rightarrow> copy_height header out_header' (i + 1))
      else Some out_header)"
  by pat_completeness auto
termination
  by (relation "measure (\<lambda>(header, out, i). nat (4 - i))") simp_all

definition eiml_generate_header :: "EimlHeader \<Rightarrow> byte list \<Rightarrow> (EimlRet \<times> byte list) option" where
  "eiml_generate_header header out_header =
     (case copy_sof out_header 0 of
        None \<Rightarrow> None
      | Some out1 \<Rightarrow>
         (case wr_int out1 EIML_SOF_SIZE (format header) of
            None \<Rightarrow> None
          | Some out2 \<Rightarrow>
             (case copy_width header out2 0 of
                None \<Rightarrow> None
              | Some out3 \<Rightarrow>
                 (case copy_height header out3 0 of
                    None \<Rightarrow> None
                  | Some out4 \<Rightarrow> Some (EIML_OK, out4)))))"

text \<open>Little-endian bytes of a 32-bit value, least significant first.\<close>

definition le_bytes :: "uint \<Rightarrow> byte list" where
  "le_bytes w = map (\<lambda>k. of_nat (unat w div 256 ^ k mod 256)) [0..<4]"


section \<open>Serial transport\<close>

text \<open>
  Everything the sketches send goes through \<open>Serial.print\<close> and \<open>Serial.println\<close>; the
  diagnostics use the same port as the frames. The transport is the list of these calls in
  program order. \<open>wire\<close> is the character stream they produce: the Arduino core ends a
  \<open>println\<close> with carriage return and line feed.
\<close>

datatype serial_op = Print string | Println string

fun wire :: "serial_op list \<Rightarrow> string" where
  "wire [] = []"
| "wire (Print s # ops) = s @ wire ops"
| "wire (Println s # ops) = s @ [CHR 0x0D, CHR 0x0A] @ wire ops"

section \<open>Sizes of the text buffers\<close>

text \<open>
  The two camera-driver sketches compute \<open>enc_len\<close> from a \<open>size_t\<close> length in unsigned
  32-bit arithmetic and allocate \<open>enc_len + 1\<close> bytes.
\<close>

definition enc_len :: "uint \<Rightarrow> uint" where
  "enc_len n = (n + 2) div 3 * 4"

definition enc_buf_size :: "uint \<Rightarrow> uint" where
  "enc_buf_size n = (enc_len n + 1) * 1"

text \<open>
  The array-based sketch computes both sizes from \<open>int\<close> constants; the operands are
  positive, so C's truncating division is \<open>div\<close>.
\<close>

definition cam_width :: int where "cam_width = 160"
definition cam_height :: int where "cam_height = 120"
definition cam_bytes_per_pixel :: int where "cam_bytes_per_pixel = 2"
definition crop_width :: int where "crop_width = 64"
definition crop_height :: int where "crop_height = 64"
definition rgb888_bytes_per_pixel :: int where "rgb888_bytes_per_pixel = 3"

definition c888_img_bytes :: int where
  "c888_img_bytes = crop_width * crop_height * rgb888_bytes_per_pixel"

definition nano33_enc_len :: uint where
  "nano33_enc_len = word_of_int ((c888_img_bytes + 2) div 3 * 4)"

definition nano33_enc_buf_size :: uint where
  "nano33_enc_buf_size = (nano33_enc_len + 1) * 1"

definition enc_header_size :: int where
  "enc_header_size = (EIML_HEADER_SIZE + 2) div 3 * 4"

text \<open>
  Modelled from the spec: the number of characters that \<open>encode_base64\<close> of \<open>base64.h\<close>,
  which is not among the sources, produces for \<open>n\<close> input bytes. The specification gives
  it as \<open>ceil(n/3) * 4\<close>, and has a terminator stored after them.
\<close>

definition base64_len :: "nat \<Rightarrow> nat" where
  "base64_len n = nat \<lceil>real n / 3\<rceil> * 4"

text \<open>
  Modelled from the spec: how \<open>encode_base64\<close> of \<open>base64.h\<close>, which is not among the
  sources, fills the output buffer it is given. It stores the text from the start of the
  buffer and a terminating NUL after it, so a buffer of \<open>capacity\<close> bytes must have room for
  one byte more than the text. A byte stored past the end of the buffer is an out-of-range
  write and is \<open>None\<close>, as for the image buffers.
\<close>

definition write_text :: "string \<Rightarrow> nat \<Rightarrow> string option" where
  "write_text text capacity =
     (if length text + 1 \<le> capacity then Some (text @ [CHR 0x00]) else None)"

text \<open>
  \<open>Serial.print\<close> and \<open>Serial.println\<close> of a \<open>char*\<close> send the characters of the buffer up
  to its first NUL.
\<close>

definition c_string :: "string \<Rightarrow> string" where
  "c_string buf = takeWhile (\<lambda>c. c \<noteq> CHR 0x00) buf"

section \<open>Main loops\<close>

text \<open>
  One call of \<open>loop()\<close> in each sketch. What the external collaborators deliver is an
  argument: the frame from the camera driver, the outcome of the JPEG compressor, and the
  Base64 encoder \<open>encode_base64\<close> of \<open>base64.h\<close>, which maps the bytes to encode to the
  text it produces. In the two camera-driver sketches the text goes to a heap buffer of
  \<open>enc_len + 1\<close> bytes and their loops are given by what they print.
\<close>

record 'f camera_fb =
  fb_buf :: "byte list"
  fb_len :: uint
  fb_width :: uint
  fb_height :: uint
  fb_format :: 'f

definition JPG_QAULITY :: int where "JPG_QAULITY = 20"

definition loop_esp32_cam_image_serial ::
  "(byte list \<Rightarrow> string) \<Rightarrow>
   (byte list \<Rightarrow> uint \<Rightarrow> uint \<Rightarrow> uint \<Rightarrow> 'f \<Rightarrow> int \<Rightarrow> (byte list \<times> uint) option) \<Rightarrow>
   'f camera_fb option \<Rightarrow> serial_op list"
where
  "loop_esp32_cam_image_serial encode_base64 fmt2jpg fb_get =
     (case fb_get of
        None \<Rightarrow> [Println ''Camera capture failed'']
      | Some fb \<Rightarrow>
         (case fmt2jpg (fb_buf fb) (fb_len fb) (fb_width fb) (fb_height fb) (fb_format fb)
                 JPG_QAULITY of
            None \<Rightarrow> [Println ''ERROR: Could not convert image to JPEG format'']
          | Some (jpg_buf, jpg_len) \<Rightarrow>
              (let enc_buf = encode_base64 (take (unat jpg_len) jpg_buf)
               in [Println enc_buf])))"

definition loop_esp32_cam_image_capture_02 ::
  "(byte list \<Rightarrow> string) \<Rightarrow> 'f camera_fb option \<Rightarrow> serial_op list"
where
  "loop_esp32_cam_image_capture_02 encode_base64 fb_get =
     (case fb_get of
        None \<Rightarrow> [Println ''Camera capture failed'']
      | Some fb \<Rightarrow>
          (let enc_buf = encode_base64 (take (unat (fb_len fb)) (fb_buf fb))
           in [Println enc_buf]))"

text \<open>
  The array-based sketch keeps its image buffers and \<open>eiml_ret\<close> in static storage, which
  survives from one call of \<open>loop()\<close> to the next. \<open>Camera.readFrame\<close> stores the frame it
  delivers at the start of \<open>cam_img\<close>. \<open>header_buf\<close> is a local array that starts with
  indeterminate contents, given as an argument. The text of the image goes to the heap
  buffer \<open>enc_buf\<close> of \<open>enc_len + 1\<close> bytes, the text of the header to the local array
  \<open>enc_header\<close> of \<open>(EIML_HEADER_SIZE + 2) / 3 * 4\<close> bytes; both are written by
  \<open>encode_base64\<close> and printed as C strings.
\<close>

record nano33_state =
  cam_img :: "byte list"
  crop_img :: "byte list"
  rgb888_img :: "byte list"
  eiml_ret :: EimlRet

definition readFrame :: "byte list \<Rightarrow> byte list \<Rightarrow> byte list option" where
  "readFrame frame buf =
     (if length frame \<le> length buf then Some (frame @ drop (length frame) buf) else None)"

fun format_value :: "EimlFormat \<Rightarrow> byte" where
  "format_value EIML_RESERVED = 0"
| "format_value EIML_RGB888 = 1"

definition loop_nano33 ::
  "(byte list \<Rightarrow> string) \<Rightarrow> byte list \<Rightarrow> byte list \<Rightarrow> nano33_state
     \<Rightarrow> (nano33_state \<times> serial_op list) option"
where
  "loop_nano33 encode_base64 frame header_buf st =
     (case readFrame frame (cam_img st) of
        None \<Rightarrow> None
      | Some cam \<Rightarrow>
     (case eiml_crop_center cam (word_of_int cam_width) (word_of_int cam_height) (crop_img st)
             (word_of_int crop_width) (word_of_int crop_height)
             (word_of_int cam_bytes_per_pixel) of
        None \<Rightarrow> None
      | Some (ret1, crop) \<Rightarrow>
         (let st1 = st\<lparr>cam_img := cam, crop_img := crop, eiml_ret := ret1\<rparr>
          in if ret1 \<noteq> EIML_OK then Some (st1, [Println ''Image cropping error''])
             else
     (case eiml_rgb565_to_rgb888 crop (rgb888_img st1) (word_of_int (crop_width * crop_height)) of
        None \<Rightarrow> None
      | Some (ret2, rgb) \<Rightarrow>
         (let st2 = st1\<lparr>rgb888_img := rgb, eiml_ret := ret2\<rparr>
          in if ret2 \<noteq> EIML_OK then Some (st2, [Println ''Image conversion error''])
             else
     (case write_text (encode_base64 (take (nat c888_img_bytes) rgb))
             (unat nano33_enc_buf_size) of
        None \<Rightarrow> None
      | Some enc_buf \<Rightarrow>
     (let header = \<lparr>format = format_value EIML_RGB888, width = word_of_int crop_width,
                     height = word_of_int crop_height\<rparr>
      in case eiml_generate_header header header_buf of
           None \<Rightarrow> None
         | Some (ret3, header_buf') \<Rightarrow>
            (let st3 = st2\<lparr>eiml_ret := ret3\<rparr>
             in if ret3 \<noteq> EIML_OK then Some (st3, [Println ''Error generating header''])
                else
                  (case write_text (encode_base64 (take (nat EIML_HEADER_SIZE) header_buf'))
                          (nat enc_header_size) of
                     None \<Rightarrow> None
                   | Some enc_header \<Rightarrow>
                       Some (st3, [Print (c_string enc_header),
                                   Println (c_string enc_buf)]))))))))))"

text \<open>The Arduino runtime calls \<open>loop()\<close> again and again; one input per call.\<close>

definition run_esp32_cam_image_serial ::
  "(byte list \<Rightarrow> string) \<Rightarrow>
   (byte list \<Rightarrow> uint \<Rightarrow> uint \<Rightarrow> uint \<Rightarrow> 'f \<Rightarrow> int \<Rightarrow> (byte list \<times> uint) option) \<Rightarrow>
   'f camera_fb option list \<Rightarrow> serial_op list"
where
  "run_esp32_cam_image_serial encode_base64 fmt2jpg fbs =
     concat (map (loop_esp32_cam_image_serial encode_base64 fmt2jpg) fbs)"

definition run_esp32_cam_image_capture_02 ::
  "(byte list \<Rightarrow> string) \<Rightarrow> 'f camera_fb option list \<Rightarrow> serial_op list"
where
  "run_esp32_cam_image_capture_02 encode_base64 fbs =
     concat (map (loop_esp32_cam_image_capture_02 encode_base64) fbs)"

text \<open>
  The calls that one \<open>loop()\<close> of \<open>esp32_cam_image_serial\<close> makes to its collaborators
  and to the heap, in program order. \<open>esp_camera_fb_get\<close> takes a frame buffer from the
  driver and \<open>esp_camera_fb_return\<close> gives it back.
\<close>

datatype call =
    Esp_camera_fb_get
  | Fmt2jpg
  | Malloc
  | Encode_base64
  | Serial_println string
  | Esp_camera_fb_return
  | Free_jpg_buf
  | Free_enc_buf

definition calls_esp32_cam_image_serial ::
  "(byte list \<Rightarrow> string) \<Rightarrow>
   (byte list \<Rightarrow> uint \<Rightarrow> uint \<Rightarrow> uint \<Rightarrow> 'f \<Rightarrow> int \<Rightarrow> (byte list \<times> uint) option) \<Rightarrow>
   'f camera_fb option \<Rightarrow> call list"
where
  "calls_esp32_cam_image_serial encode_base64 fmt2jpg fb_get =
     (case fb_get of
        None \<Rightarrow> [Esp_camera_fb_get, Serial_println ''Camera capture failed'']
      | Some fb \<Rightarrow>
         (case fmt2jpg (fb_buf fb) (fb_len fb) (fb_width fb) (fb_height fb) (fb_format fb)
                 JPG_QAULITY of
            None \<Rightarrow>
              [Esp_camera_fb_get, Fmt2jpg,
               Serial_println ''ERROR: Could not convert image to JPEG format'']
          | Some (jpg_buf, jpg_len) \<Rightarrow>
              [Esp_camera_fb_get, Fmt2jpg, Malloc, Encode_base64,
               Serial_println (encode_base64 (take (unat jpg_len) jpg_buf)),
               Esp_camera_fb_return, Free_jpg_buf, Free_enc_buf]))"

fun serial_of :: "call list \<Rightarrow> serial_op list" where
  "serial_of [] = []"
| "serial_of (Serial_println s # calls) = Println s # serial_of calls"
| "serial_of (c # calls) = serial_of calls"

text \<open>
  A frame buffer is carried out of an iteration when \<open>esp_camera_fb_get\<close> delivered one
  and the iteration ends without \<open>esp_camera_fb_return\<close>.
\<close>

definition frame_buffer_kept :: "'f camera_fb option \<Rightarrow> call list \<Rightarrow> bool" where
  "frame_buffer_kept fb_get calls \<longleftrightarrow> fb_get \<noteq> None \<and> Esp_camera_fb_return \<notin> set calls"

text \<open>The static buffers have the sizes of their declarations.\<close>

definition buffers_ok :: "nano33_state \<Rightarrow> bool" where
  "buffers_ok st \<longleftrightarrow>
     length (cam_img st) = nat (cam_width * cam_height * cam_bytes_per_pixel) \<and>
     length (crop_img st) = nat (crop_width * crop_height * cam_bytes_per_pixel) \<and>
     length (rgb888_img st) = nat (crop_width * crop_height * rgb888_bytes_per_pixel)"

text \<open>
  The frame the array-based sketch sends: the header of a 64 by 64 RGB888 image, and the
  converted centre crop of the 160 by 120 camera frame.
\<close>

definition frame_header :: "byte list" where
  "frame_header = [0xFF, 0xA0, 0xFF, 0x01, 0x40, 0x00, 0x00, 0x00, 0x40, 0x00, 0x00, 0x00]"

definition frame_body :: "byte list \<Rightarrow> byte list" where
  "frame_body frame = rgb888_image (centered_rect frame 160 120 64 64 2) 4096"

section \<open>Base64 encoder\<close>

text \<open>
  Modelled from the spec: \<open>encode_base64\<close> of \<open>base64.h\<close>, which is not among the sources.
  The specification calls it the standard reversible encoding into a printable alphabet,
  four characters for every three bytes, with Base64's own \<open>=\<close> padding: that is the
  Base64 encoding of RFC 4648.
\<close>

definition base64_alphabet :: string where
  "base64_alphabet = ''ABCDEFGHIJKLMNOPQRSTUVWXYZabcdefghijklmnopqrstuvwxyz0123456789+/''"

definition base64_char :: "nat \<Rightarrow> char" where
  "base64_char k = base64_alphabet ! k"

fun base64_text :: "byte list \<Rightarrow> string" where
  "base64_text (a # b # c # rest) =
     [base64_char (unat a div 4),
      base64_char (unat a mod 4 * 16 + unat b div 16),
      base64_char (unat b mod 16 * 4 + unat c div 64),
      base64_char (unat c mod 64)] @ base64_text rest"
| "base64_text [a, b] =
     [base64_char (unat a div 4),
      base64_char (unat a mod 4 * 16 + unat b div 16),
      base64_char (unat b mod 16 * 4),
      CHR ''='']"
| "base64_text [a] =
     [base64_char (unat a div 4),
      base64_char (unat a mod 4 * 16),
      CHR ''='', CHR ''='']"
| "base64_text [] = []"

section \<open>Sample collaborators\<close>

text \<open>
  Concrete stand-ins for the external collaborators, used to run the loops on concrete
  inputs: a text encoder that emits one character per byte, a compressor that succeeds
  and hands its input back, a compressor that fails, a three-byte camera frame and a
  state of zeroed static buffers.
\<close>

definition sample_text :: "byte list \<Rightarrow> string" where
  "sample_text bs = map (\<lambda>b. char_of (unat b)) bs"

definition sample_jpg ::
  "byte list \<Rightarrow> uint \<Rightarrow> uint \<Rightarrow> uint \<Rightarrow> unit \<Rightarrow> int \<Rightarrow> (byte list \<times> uint) option" where
  "sample_jpg buf len w h f quality = Some (buf, len)"

definition failing_jpg ::
  "byte list \<Rightarrow> uint \<Rightarrow> uint \<Rightarrow> uint \<Rightarrow> unit \<Rightarrow> int \<Rightarrow> (byte list \<times> uint) option" where
  "failing_jpg buf len w h f quality = None"

definition sample_fb :: "unit camera_fb" where
  "sample_fb = \<lparr>fb_buf = [1, 2, 3], fb_len = 3, fb_width = 1, fb_height = 1, fb_format = ()\<rparr>"


section \<open>Properties of the centre crop\<close>

declare crop_bytes.simps [simp del] crop_row.simps [simp del] crop_rows.simps [simp del]
declare rgb565_pixels.simps [simp del]
declare copy_sof.simps [simp del] copy_width.simps [simp del] copy_height.simps [simp del]

lemma unat_add3:
  fixes a b c :: uint
  assumes "unat a + unat b + unat c < 2 ^ 32"
  shows "unat (a + b + c) = unat a + unat b + unat c"
proof -
  have "unat (a + b) = unat a + unat b" using assms by (simp add: unat_word_ariths)
  then show ?thesis using assms by (simp add: unat_word_ariths)
qed

lemma crop_bytes_copies:
  assumes "unat iy + unat ix + unat bpp \<le> length inp" "length inp < 2 ^ 32"
    and "unat oy + unat ox + unat bpp \<le> length out" "length out < 2 ^ 32"
  shows "\<exists>out'. crop_bytes inp out iy ix oy ox bpp b = Some out' \<and> length out' = length out \<and>
           (\<forall>k < length out. out' ! k =
              (if unat oy + unat ox + unat b \<le> k \<and> k < unat oy + unat ox + unat bpp
               then inp ! (unat iy + unat ix + (k - (unat oy + unat ox))) else out ! k))"
  using assms
proof (induction inp out iy ix oy ox bpp b rule: crop_bytes.induct)
  case (1 inp out iy ix oy ox bpp b)
  show ?case
  proof (cases "b < bpp")
    case False
    then have "unat bpp \<le> unat b" by (simp add: word_less_nat_alt)
    then show ?thesis using False by (auto simp: crop_bytes.simps)
  next
    case True
    then have lt: "unat b < unat bpp" by (simp add: word_less_nat_alt)
    have ri: "unat (iy + ix + b) = unat iy + unat ix + unat b"
      using lt "1.prems" by (intro unat_add3) simp
    have wi: "unat (oy + ox + b) = unat oy + unat ox + unat b"
      using lt "1.prems" by (intro unat_add3) simp
    define v where "v = inp ! (unat iy + unat ix + unat b)"
    define out1 where "out1 = out[unat oy + unat ox + unat b := v]"
    have r: "rd inp (iy + ix + b) = Some v"
      using lt "1.prems" by (simp add: rd_def ri v_def)
    have w: "wr out (oy + ox + b) v = Some out1"
      using lt "1.prems" by (simp add: wr_def wi out1_def)
    have len1: "length out1 = length out" by (simp add: out1_def)
    from "1.IH" [OF True r w] "1.prems" len1
    obtain out' where rec: "crop_bytes inp out1 iy ix oy ox bpp (b + 1) = Some out'"
      and len': "length out' = length out1"
      and nth': "\<forall>k < length out1. out' ! k =
              (if unat oy + unat ox + unat (b + 1) \<le> k \<and> k < unat oy + unat ox + unat bpp
               then inp ! (unat iy + unat ix + (k - (unat oy + unat ox))) else out1 ! k)"
      by auto
    have step: "crop_bytes inp out iy ix oy ox bpp b = Some out'"
      using True r w rec by (subst crop_bytes.simps) simp
    have "\<forall>k < length out. out' ! k =
              (if unat oy + unat ox + unat b \<le> k \<and> k < unat oy + unat ox + unat bpp
               then inp ! (unat iy + unat ix + (k - (unat oy + unat ox))) else out ! k)"
    proof (intro allI impI)
      fix k assume k: "k < length out"
      show "out' ! k =
              (if unat oy + unat ox + unat b \<le> k \<and> k < unat oy + unat ox + unat bpp
               then inp ! (unat iy + unat ix + (k - (unat oy + unat ox))) else out ! k)"
      proof (cases "k = unat oy + unat ox + unat b")
        case True
        then show ?thesis using nth' k len1 lt unat_inc [OF \<open>b < bpp\<close>]
          by (simp add: out1_def v_def)
      next
        case False
        then show ?thesis using nth' k len1 lt unat_inc [OF \<open>b < bpp\<close>]
          by (auto simp: out1_def)
      qed
    qed
    with step len' len1 show ?thesis by simp
  qed
qed


lemma unat_x_offset:
  fixes bpp iw ow x :: uint
  assumes "ow \<le> iw" "x < ow" "unat bpp * unat iw < 2 ^ 32"
  shows "unat (bpp * ((iw - ow) div 2 + x)) = unat bpp * ((unat iw - unat ow) div 2 + unat x)"
    and "(unat iw - unat ow) div 2 + unat x < unat iw"
proof -
  have le: "unat ow \<le> unat iw" using assms(1) by (simp add: word_le_nat_alt)
  have lt: "unat x < unat ow" using assms(2) by (simp add: word_less_nat_alt)
  have iw: "unat iw < 2 ^ 32" using unsigned_less [of iw] by simp
  have d: "unat ((iw - ow) div 2) = (unat iw - unat ow) div 2"
    using assms(1) by (simp add: unat_div unat_sub)
  show in_row: "(unat iw - unat ow) div 2 + unat x < unat iw" using le lt by linarith
  then have s: "unat ((iw - ow) div 2 + x) = (unat iw - unat ow) div 2 + unat x"
    using iw d by (simp add: unat_word_ariths)
  have "unat bpp * ((unat iw - unat ow) div 2 + unat x) \<le> unat bpp * unat iw"
    using in_row by (intro mult_le_mono2) simp
  then have "unat bpp * ((unat iw - unat ow) div 2 + unat x) < 2 ^ 32"
    using assms(3) by (rule le_less_trans)
  then have "unat bpp * unat ((iw - ow) div 2 + x) < 2 ^ 32"
    unfolding s .
  then show "unat (bpp * ((iw - ow) div 2 + x)) = unat bpp * ((unat iw - unat ow) div 2 + unat x)"
    using s by (simp add: unat_word_ariths)
qed

lemma unat_mult_small:
  fixes a b :: uint
  assumes "unat a * unat b < 2 ^ 32"
  shows "unat (a * b) = unat a * unat b"
  using assms by (simp add: unat_word_ariths)

lemma crop_row_copies:
  assumes "ow \<le> iw"
    and "unat iy + unat bpp * unat iw \<le> length inp" "length inp < 2 ^ 32"
    and "unat oy + unat bpp * unat ow \<le> length out" "length out < 2 ^ 32"
  shows "\<exists>out'. crop_row inp out iw ow bpp iy oy x = Some out' \<and> length out' = length out \<and>
           (\<forall>k < length out. out' ! k =
              (if unat oy + unat bpp * unat x \<le> k \<and> k < unat oy + unat bpp * unat ow
               then inp ! (unat iy + unat bpp * ((unat iw - unat ow) div 2) + (k - unat oy))
               else out ! k))"
  using assms
proof (induction inp out iw ow bpp iy oy x rule: crop_row.induct)
  case (1 inp out iw ow bpp iy oy x)
  show ?case
  proof (cases "x < ow")
    case False
    then have "unat ow \<le> unat x" by (simp add: word_less_nat_alt)
    then have "unat bpp * unat ow \<le> unat bpp * unat x" by (rule mult_le_mono2)
    then have "\<not> (unat oy + unat bpp * unat x \<le> k \<and> k < unat oy + unat bpp * unat ow)" for k
      by linarith
    then show ?thesis using False by (auto simp: crop_row.simps)
  next
    case True
    then have lt: "unat x < unat ow" by (simp add: word_less_nat_alt)
    define xoff where "xoff = (unat iw - unat ow) div 2"
    define ix where "ix = bpp * ((iw - ow) div 2 + x)"
    define ox where "ox = bpp * x"
    have small: "unat bpp * unat iw < 2 ^ 32" using "1.prems" by simp
    have ixn: "unat ix = unat bpp * xoff + unat bpp * unat x"
      and in_row: "xoff + unat x < unat iw"
      using unat_x_offset [OF \<open>ow \<le> iw\<close> True small]
      by (simp_all add: ix_def xoff_def distrib_left)
    have bx: "unat bpp * unat x + unat bpp \<le> unat bpp * unat ow"
    proof -
      have "unat bpp * Suc (unat x) \<le> unat bpp * unat ow"
        using lt by (intro mult_le_mono2) simp
      then show ?thesis by simp
    qed
    have oxn: "unat ox = unat bpp * unat x"
      unfolding ox_def using bx "1.prems" by (intro unat_mult_small) simp
    have bi: "unat bpp * xoff + unat bpp * unat x + unat bpp \<le> unat bpp * unat iw"
    proof -
      have "unat bpp * Suc (xoff + unat x) \<le> unat bpp * unat iw"
        using in_row by (intro mult_le_mono2) simp
      then show ?thesis by (simp add: distrib_left)
    qed
    have h1: "unat iy + unat ix + unat bpp \<le> length inp" using bi ixn "1.prems" by simp
    have h2: "unat oy + unat ox + unat bpp \<le> length out" using bx oxn "1.prems" by simp
    from crop_bytes_copies [OF h1 \<open>length inp < 2 ^ 32\<close> h2 \<open>length out < 2 ^ 32\<close>, of 0]
    obtain out1 where px: "crop_bytes inp out iy ix oy ox bpp 0 = Some out1"
      and len1: "length out1 = length out"
      and nth1: "\<forall>k < length out. out1 ! k =
              (if unat oy + unat ox \<le> k \<and> k < unat oy + unat ox + unat bpp
               then inp ! (unat iy + unat ix + (k - (unat oy + unat ox))) else out ! k)"
      by auto
    from "1.IH" [OF True ix_def ox_def px] "1.prems" len1
    obtain out' where rec: "crop_row inp out1 iw ow bpp iy oy (x + 1) = Some out'"
      and len': "length out' = length out1"
      and nth': "\<forall>k < length out1. out' ! k =
              (if unat oy + unat bpp * unat (x + 1) \<le> k \<and> k < unat oy + unat bpp * unat ow
               then inp ! (unat iy + unat bpp * xoff + (k - unat oy))
               else out1 ! k)"
      by (auto simp: xoff_def)
    have step: "crop_row inp out iw ow bpp iy oy x = Some out'"
      using True px rec by (subst crop_row.simps) (simp add: ix_def ox_def Let_def)
    have nxt: "unat bpp * unat (x + 1) = unat bpp * unat x + unat bpp"
      using unat_inc [OF True] by simp
    have "\<forall>k < length out. out' ! k =
              (if unat oy + unat bpp * unat x \<le> k \<and> k < unat oy + unat bpp * unat ow
               then inp ! (unat iy + unat bpp * xoff + (k - unat oy))
               else out ! k)"
    proof (intro allI impI)
      fix k assume k: "k < length out"
      show "out' ! k =
              (if unat oy + unat bpp * unat x \<le> k \<and> k < unat oy + unat bpp * unat ow
               then inp ! (unat iy + unat bpp * xoff + (k - unat oy))
               else out ! k)"
      proof (cases "unat oy + unat bpp * unat x \<le> k \<and> k < unat oy + unat bpp * unat x + unat bpp")
        case True
        then have "out' ! k = out1 ! k" using nth' k len1 nxt by simp
        also have "\<dots> = inp ! (unat iy + unat ix + (k - (unat oy + unat ox)))"
          using nth1 k True oxn by simp
        also have "unat iy + unat ix + (k - (unat oy + unat ox))
                     = unat iy + unat bpp * xoff + (k - unat oy)"
          using True ixn oxn by simp
        finally show ?thesis using True bx by simp
      next
        case False
        then show ?thesis using nth' nth1 k len1 nxt oxn bx by auto
      qed
    qed
    with step len' len1 show ?thesis by (simp add: xoff_def)
  qed
qed


lemma unat_row_offset:
  fixes bpp w h d y :: uint
  assumes "unat d + unat y < unat h" "unat bpp * unat w * unat h < 2 ^ 32"
  shows "unat (bpp * w * (d + y)) = unat bpp * unat w * (unat d + unat y)"
    and "unat bpp * unat w * (unat d + unat y) + unat bpp * unat w \<le> unat bpp * unat w * unat h"
proof -
  have h: "unat h < 2 ^ 32" using unsigned_less [of h] by simp
  have s: "unat (d + y) = unat d + unat y" using assms(1) h by (simp add: unat_word_ariths)
  have "unat bpp * unat w * Suc (unat d + unat y) \<le> unat bpp * unat w * unat h"
    using assms(1) by (intro mult_le_mono2) simp
  then show le: "unat bpp * unat w * (unat d + unat y) + unat bpp * unat w
                  \<le> unat bpp * unat w * unat h"
    by simp
  then have "unat bpp * unat w < 2 ^ 32" using assms(2) by linarith
  then have bw: "unat (bpp * w) = unat bpp * unat w" by (rule unat_mult_small)
  have "unat (bpp * w) * unat (d + y) < 2 ^ 32" using le assms(2) bw s by simp
  then have "unat (bpp * w * (d + y)) = unat (bpp * w) * unat (d + y)" by (rule unat_mult_small)
  then show "unat (bpp * w * (d + y)) = unat bpp * unat w * (unat d + unat y)"
    using bw s by simp
qed

lemma crop_rows_copies:
  assumes "ow \<le> iw" "oh \<le> ih"
    and "unat bpp * unat iw * unat ih \<le> length inp" "length inp < 2 ^ 32"
    and "unat bpp * unat ow * unat oh \<le> length out" "length out < 2 ^ 32"
  shows "\<exists>out'. crop_rows inp iw ih out ow oh bpp y = Some out' \<and> length out' = length out \<and>
           (\<forall>k < length out. k < unat bpp * unat ow * unat y \<or> unat bpp * unat ow * unat oh \<le> k
               \<longrightarrow> out' ! k = out ! k) \<and>
           (\<forall>y' r. unat y \<le> y' \<and> y' < unat oh \<and> r < unat bpp * unat ow \<longrightarrow>
               out' ! (unat bpp * unat ow * y' + r) =
               inp ! (unat bpp * unat iw * ((unat ih - unat oh) div 2 + y')
                       + unat bpp * ((unat iw - unat ow) div 2) + r))"
  using assms
proof (induction inp iw ih out ow oh bpp y rule: crop_rows.induct)
  case (1 inp iw ih out ow oh bpp y)
  show ?case
  proof (cases "y < oh")
    case False
    then have "unat oh \<le> unat y" by (simp add: word_less_nat_alt)
    then show ?thesis using False by (auto simp: crop_rows.simps)
  next
    case True
    then have lt: "unat y < unat oh" by (simp add: word_less_nat_alt)
    have le: "unat oh \<le> unat ih" using \<open>oh \<le> ih\<close> by (simp add: word_le_nat_alt)
    define yoff where "yoff = (unat ih - unat oh) div 2"
    define R where "R = unat bpp * unat ow"
    define iy where "iy = bpp * iw * ((ih - oh) div 2 + y)"
    define oy where "oy = bpp * ow * y"
    have d: "unat ((ih - oh) div 2) = yoff"
      using \<open>oh \<le> ih\<close> by (simp add: unat_div unat_sub yoff_def)
    have in_img: "unat ((ih - oh) div 2) + unat y < unat ih" using d lt le yoff_def by linarith
    have smalli: "unat bpp * unat iw * unat ih < 2 ^ 32" using "1.prems" by simp
    have smallo: "unat bpp * unat ow * unat oh < 2 ^ 32" using "1.prems" by simp
    have iyn: "unat iy = unat bpp * unat iw * (yoff + unat y)"
      and iyb: "unat bpp * unat iw * (yoff + unat y) + unat bpp * unat iw
                  \<le> unat bpp * unat iw * unat ih"
      using unat_row_offset [OF in_img smalli] by (simp_all add: iy_def d)
    have "unat (0::uint) + unat y < unat oh" using lt by simp
    from unat_row_offset [OF this smallo]
    have oyn: "unat oy = R * unat y" and oyb: "R * unat y + R \<le> R * unat oh"
      by (simp_all add: oy_def R_def)
    have h1: "unat iy + unat bpp * unat iw \<le> length inp" using iyn iyb "1.prems" by simp
    have h2: "unat oy + unat bpp * unat ow \<le> length out"
      using oyn oyb "1.prems" by (simp add: R_def)
    from crop_row_copies [OF \<open>ow \<le> iw\<close> h1 \<open>length inp < 2 ^ 32\<close> h2 \<open>length out < 2 ^ 32\<close>, of 0]
    obtain out1 where row: "crop_row inp out iw ow bpp iy oy 0 = Some out1"
      and len1: "length out1 = length out"
      and nth1: "\<forall>k < length out. out1 ! k =
              (if R * unat y \<le> k \<and> k < R * unat y + R
               then inp ! (unat bpp * unat iw * (yoff + unat y)
                            + unat bpp * ((unat iw - unat ow) div 2) + (k - R * unat y))
               else out ! k)"
      by (auto simp: oyn iyn R_def)
    from "1.IH" [OF True iy_def oy_def row] "1.prems" len1
    obtain out' where rec: "crop_rows inp iw ih out1 ow oh bpp (y + 1) = Some out'"
      and len': "length out' = length out1"
      and keep': "\<forall>k < length out1. k < R * unat (y + 1) \<or> R * unat oh \<le> k
                    \<longrightarrow> out' ! k = out1 ! k"
      and nth': "\<forall>y' r. unat (y + 1) \<le> y' \<and> y' < unat oh \<and> r < R \<longrightarrow>
               out' ! (R * y' + r) =
               inp ! (unat bpp * unat iw * (yoff + y')
                       + unat bpp * ((unat iw - unat ow) div 2) + r)"
      by (auto simp: R_def yoff_def)
    have step: "crop_rows inp iw ih out ow oh bpp y = Some out'"
      using True row rec by (subst crop_rows.simps) (simp add: iy_def oy_def Let_def)
    have nxt: "R * unat (y + 1) = R * unat y + R" "unat (y + 1) = Suc (unat y)"
      using unat_inc [OF True] by simp_all
    have total: "R * unat oh \<le> length out" using "1.prems" by (simp add: R_def)
    have keep: "\<forall>k < length out. k < R * unat y \<or> R * unat oh \<le> k \<longrightarrow> out' ! k = out ! k"
      using keep' nth1 len1 nxt(1) oyb by auto
    have "out' ! (R * y' + r) =
               inp ! (unat bpp * unat iw * (yoff + y')
                       + unat bpp * ((unat iw - unat ow) div 2) + r)"
      if "unat y \<le> y'" "y' < unat oh" "r < R" for y' r
    proof (cases "y' = unat y")
      case False
      then show ?thesis using nth' that nxt(2) by simp
    next
      case True
      have k: "R * unat y + r < length out" using that(3) oyb total by linarith
      have "out' ! (R * unat y + r) = out1 ! (R * unat y + r)"
        using keep' k len1 nxt(1) that(3) by simp
      also have "\<dots> = inp ! (unat bpp * unat iw * (yoff + unat y)
                            + unat bpp * ((unat iw - unat ow) div 2) + r)"
        using nth1 k that(3) by simp
      finally show ?thesis using True by simp
    qed
    with step len' len1 keep show ?thesis by (simp add: R_def yoff_def)
  qed
qed


lemma concat_rows:
  assumes "\<forall>y < n. length (f y) = m"
  shows "length (concat (map f [0..<n])) = m * n \<and>
         (\<forall>y r. y < n \<and> r < m \<longrightarrow> concat (map f [0..<n]) ! (m * y + r) = f y ! r)"
  using assms
proof (induction n)
  case 0
  show ?case by simp
next
  case (Suc n)
  have prev: "\<forall>y < n. length (f y) = m" using Suc.prems by simp
  have len: "length (concat (map f [0..<n])) = m * n"
    and nth: "\<forall>y r. y < n \<and> r < m \<longrightarrow> concat (map f [0..<n]) ! (m * y + r) = f y ! r"
    using Suc.IH [OF prev] by simp_all
  have "concat (map f [0..<Suc n]) ! (m * y + r) = f y ! r" if yr: "y < Suc n \<and> r < m" for y r
  proof (cases "y < n")
    case True
    have "m * Suc y \<le> m * n" using True by (intro mult_le_mono2) simp
    then have "m * y + r < m * n" using yr by simp
    then show ?thesis using nth True yr len by (simp add: nth_append)
  next
    case False
    then have "y = n" using yr by simp
    then show ?thesis using len by (simp add: nth_append)
  qed
  then show ?case using len Suc.prems by simp
qed

lemma centered_rect_rows:
  assumes "ow \<le> iw" "oh \<le> ih" "bpp * iw * ih \<le> length inp"
  shows "length (centered_rect inp iw ih ow oh bpp) = bpp * ow * oh"
    and "\<forall>y r. y < oh \<and> r < bpp * ow \<longrightarrow>
           centered_rect inp iw ih ow oh bpp ! (bpp * ow * y + r) =
           inp ! (bpp * iw * ((ih - oh) div 2 + y) + bpp * ((iw - ow) div 2) + r)"
proof -
  define start where "start y = (((ih - oh) div 2 + y) * iw + (iw - ow) div 2) * bpp" for y
  define row where "row y = take (ow * bpp) (drop (start y) inp)" for y
  have fits: "start y + ow * bpp \<le> length inp" if "y < oh" for y
  proof -
    have "(ih - oh) div 2 + y < ih" using that assms(2) by linarith
    then have "Suc ((ih - oh) div 2 + y) * iw \<le> ih * iw" by (intro mult_le_mono1) simp
    moreover have "(iw - ow) div 2 + ow \<le> iw" using assms(1) by linarith
    ultimately have "((ih - oh) div 2 + y) * iw + (iw - ow) div 2 + ow \<le> ih * iw" by simp
    then have "(((ih - oh) div 2 + y) * iw + (iw - ow) div 2 + ow) * bpp \<le> ih * iw * bpp"
      by (rule mult_le_mono1)
    then show ?thesis using assms(3) by (simp add: algebra_simps start_def)
  qed
  have "length (row y) = bpp * ow" if "y < oh" for y
  proof -
    have "length (row y) = min (ow * bpp) (length inp - start y)" by (simp add: row_def)
    then show ?thesis using fits [OF that] by (simp add: mult.commute)
  qed
  then have len: "\<forall>y < oh. length (row y) = bpp * ow" by simp
  have "row = (\<lambda>y. take (ow * bpp)
      (drop ((((ih - oh) div 2 + y) * iw + (iw - ow) div 2) * bpp) inp))"
    by (rule ext) (simp add: row_def start_def)
  then have cr: "centered_rect inp iw ih ow oh bpp = concat (map row [0..<oh])"
    by (simp add: centered_rect_def)
  show "length (centered_rect inp iw ih ow oh bpp) = bpp * ow * oh"
    using concat_rows [OF len] cr by simp
  show "\<forall>y r. y < oh \<and> r < bpp * ow \<longrightarrow>
           centered_rect inp iw ih ow oh bpp ! (bpp * ow * y + r) =
           inp ! (bpp * iw * ((ih - oh) div 2 + y) + bpp * ((iw - ow) div 2) + r)"
  proof (intro allI impI)
    fix y r assume yr: "y < oh \<and> r < bpp * ow"
    have "centered_rect inp iw ih ow oh bpp ! (bpp * ow * y + r) = row y ! r"
      using concat_rows [OF len] yr cr by simp
    also have "\<dots> = inp ! (start y + r)"
      using yr fits [of y] by (simp add: row_def mult.commute)
    also have "start y + r
                 = bpp * iw * ((ih - oh) div 2 + y) + bpp * ((iw - ow) div 2) + r"
      by (simp add: algebra_simps start_def)
    finally show "centered_rect inp iw ih ow oh bpp ! (bpp * ow * y + r) =
           inp ! (bpp * iw * ((ih - oh) div 2 + y) + bpp * ((iw - ow) div 2) + r)" .
  qed
qed

lemma crop_center_result:
  assumes "out_width \<le> in_width" "out_height \<le> in_height"
    and "unat in_width * unat in_height * unat bytes_per_pixel \<le> length in_pixels"
    and "length in_pixels < 2 ^ 32"
    and "unat out_width * unat out_height * unat bytes_per_pixel \<le> length out_pixels"
    and "length out_pixels < 2 ^ 32"
  shows "eiml_crop_center in_pixels in_width in_height out_pixels out_width out_height
           bytes_per_pixel =
         Some (EIML_OK,
           centered_rect in_pixels (unat in_width) (unat in_height) (unat out_width)
             (unat out_height) (unat bytes_per_pixel)
           @ drop (unat out_width * unat out_height * unat bytes_per_pixel) out_pixels)"
proof -
  define B IW IH OW OH where "B = unat bytes_per_pixel" and "IW = unat in_width"
    and "IH = unat in_height" and "OW = unat out_width" and "OH = unat out_height"
  define rect where "rect = centered_rect in_pixels IW IH OW OH B"
  have le: "OW \<le> IW" "OH \<le> IH"
    using assms(1,2) by (simp_all add: word_le_nat_alt OW_def IW_def OH_def IH_def)
  have szi: "B * IW * IH \<le> length in_pixels" and szo: "B * OW * OH \<le> length out_pixels"
    using assms(3,5) by (simp_all add: B_def IW_def IH_def OW_def OH_def mult.commute mult.left_commute)
  from crop_rows_copies [OF assms(1,2) szi [unfolded B_def IW_def IH_def] assms(4)
         szo [unfolded B_def OW_def OH_def] assms(6), of 0]
  obtain out' where run: "crop_rows in_pixels in_width in_height out_pixels out_width out_height
           bytes_per_pixel 0 = Some out'"
    and len': "length out' = length out_pixels"
    and keep: "\<forall>k < length out_pixels. B * OW * OH \<le> k \<longrightarrow> out' ! k = out_pixels ! k"
    and nth': "\<forall>y r. y < OH \<and> r < B * OW \<longrightarrow>
               out' ! (B * OW * y + r) =
               in_pixels ! (B * IW * ((IH - OH) div 2 + y) + B * ((IW - OW) div 2) + r)"
    by (auto simp: B_def IW_def IH_def OW_def OH_def)
  have rlen: "length rect = B * OW * OH"
    and rnth: "\<forall>y r. y < OH \<and> r < B * OW \<longrightarrow>
           rect ! (B * OW * y + r) =
           in_pixels ! (B * IW * ((IH - OH) div 2 + y) + B * ((IW - OW) div 2) + r)"
    using centered_rect_rows [OF le szi] by (simp_all add: rect_def)
  have "out' = rect @ drop (B * OW * OH) out_pixels"
  proof (rule nth_equalityI)
    show "length out' = length (rect @ drop (B * OW * OH) out_pixels)"
      using len' rlen szo by simp
  next
    fix k assume "k < length out'"
    then have k: "k < length out_pixels" using len' by simp
    show "out' ! k = (rect @ drop (B * OW * OH) out_pixels) ! k"
    proof (cases "k < B * OW * OH")
      case False
      then show ?thesis using keep k rlen by (simp add: nth_append)
    next
      case True
      define R where "R = B * OW"
      have "R \<noteq> 0"
      proof
        assume "R = 0"
        then have "B * OW * OH = 0" by (simp add: R_def)
        with True show False by simp
      qed
      then have pos: "0 < R" by simp
      define y0 r0 where "y0 = k div R" and "r0 = k mod R"
      have dm: "k = R * y0 + r0" by (simp add: y0_def r0_def)
      have r: "r0 < B * OW" using pos by (simp add: r0_def R_def)
      have y: "y0 < OH"
        using True pos by (simp add: y0_def R_def less_mult_imp_div_less mult.commute)
      have "out' ! (B * OW * y0 + r0) = rect ! (B * OW * y0 + r0)"
        using nth' rnth y r by simp
      then have "out' ! k = rect ! k" using dm by (simp add: R_def)
      then show ?thesis using True rlen by (simp add: nth_append)
    qed
  qed
  moreover have "\<not> (in_width < out_width \<or> in_height < out_height)"
    using assms(1,2) by (simp add: not_less)
  ultimately show ?thesis
    using run
    by (simp add: eiml_crop_center_def rect_def B_def IW_def IH_def OW_def OH_def
                  mult.commute mult.left_commute)
qed

text \<open>
  \<^bold>\<open>C1.\<close> Let the input buffer hold an image of \<open>in_width \<times> in_height\<close> pixels of
  \<open>bytes_per_pixel\<close> bytes and let \<open>out_width \<le> in_width\<close> and \<open>out_height \<le> in_height\<close>.
  Then \<open>eiml_crop_center\<close> returns \<open>EIML_OK\<close>, and the first
  \<open>out_width * out_height * bytes_per_pixel\<close> bytes of the output buffer are exactly the
  centred rectangle of the input, whose top-left corner is at column
  \<open>(in_width - out_width) div 2\<close> and row \<open>(in_height - out_height) div 2\<close>; bytes of the
  output buffer beyond the rectangle, if any, keep their values. Both buffers are objects
  of a 32-bit address space, so they are shorter than \<open>2 ^ 32\<close> bytes.
\<close>

theorem crop_center_correct:
  assumes "out_width \<le> in_width" and "out_height \<le> in_height"
    and "unat in_width * unat in_height * unat bytes_per_pixel \<le> length in_pixels"
    and "length in_pixels < 2 ^ 32"
    and "unat out_width * unat out_height * unat bytes_per_pixel \<le> length out_pixels"
    and "length out_pixels < 2 ^ 32"
  shows "eiml_crop_center in_pixels in_width in_height out_pixels out_width out_height
           bytes_per_pixel =
         Some (EIML_OK,
           centered_rect in_pixels (unat in_width) (unat in_height) (unat out_width)
             (unat out_height) (unat bytes_per_pixel)
           @ drop (unat out_width * unat out_height * unat bytes_per_pixel) out_pixels)
         \<and> length (centered_rect in_pixels (unat in_width) (unat in_height) (unat out_width)
               (unat out_height) (unat bytes_per_pixel))
             = unat out_width * unat out_height * unat bytes_per_pixel"
proof -
  have le: "unat out_width \<le> unat in_width" "unat out_height \<le> unat in_height"
    using assms(1,2) by (simp_all add: word_le_nat_alt)
  have "unat bytes_per_pixel * unat in_width * unat in_height \<le> length in_pixels"
    using assms(3) by (simp add: mult.commute mult.left_commute)
  from centered_rect_rows(1) [OF le this]
  have "length (centered_rect in_pixels (unat in_width) (unat in_height) (unat out_width)
               (unat out_height) (unat bytes_per_pixel))
             = unat out_width * unat out_height * unat bytes_per_pixel"
    by (simp add: mult.commute mult.left_commute)
  then show ?thesis using crop_center_result [OF assms] by simp
qed

theorem crop_center_correct_witness:
  "eiml_crop_center [0, 1, 2, 3, 4, 5, 6, 7, 8, 9, 10, 11, 12, 13, 14, 15, 16, 17, 18, 19,
       20, 21, 22, 23] 4 3 [0, 0, 0, 0] 2 1 2
     = Some (EIML_OK, [10, 11, 12, 13])"
  using crop_center_correct [where in_pixels = "[0, 1, 2, 3, 4, 5, 6, 7, 8, 9, 10, 11, 12,
             13, 14, 15, 16, 17, 18, 19, 20, 21, 22, 23]"
          and in_width = 4 and in_height = 3 and out_pixels = "[0, 0, 0, 0]"
          and out_width = 2 and out_height = 1 and bytes_per_pixel = 2]
  by (simp add: centered_rect_def)

text \<open>
  \<^bold>\<open>C4.\<close> When \<open>out_width > in_width\<close> or \<open>out_height > in_height\<close>,
  \<open>eiml_crop_center\<close> returns \<open>EIML_ERROR\<close> and the output buffer is unchanged.
\<close>

theorem crop_center_rejects:
  assumes "in_width < out_width \<or> in_height < out_height"
  shows "eiml_crop_center in_pixels in_width in_height out_pixels out_width out_height
           bytes_per_pixel = Some (EIML_ERROR, out_pixels)"
  using assms by (simp add: eiml_crop_center_def)

theorem crop_center_rejects_witness:
  "eiml_crop_center [1, 2, 3, 4] 2 2 [7, 7, 7, 7, 7, 7] 3 2 1
     = Some (EIML_ERROR, [7, 7, 7, 7, 7, 7])"
  using crop_center_rejects [where in_width = 2 and out_width = 3 and in_height = 2
          and out_height = 2 and in_pixels = "[1, 2, 3, 4]"
          and out_pixels = "[7, 7, 7, 7, 7, 7]" and bytes_per_pixel = 1]
  by simp

text \<open>
  \<^bold>\<open>C10.\<close> Let \<open>out_width \<le> in_width\<close> and \<open>out_height \<le> in_height\<close>, let the input
  buffer have exactly \<open>in_width * in_height * bytes_per_pixel\<close> bytes and the output buffer
  exactly \<open>out_width * out_height * bytes_per_pixel\<close> bytes. Then no access of
  \<open>eiml_crop_center\<close> is out of range: a read at an index that is not below the size of the
  input, or a write at an index that is not below the size of the output, would make the
  result \<open>None\<close>.
\<close>

theorem crop_center_in_bounds:
  assumes "out_width \<le> in_width" and "out_height \<le> in_height"
    and "length in_pixels = unat in_width * unat in_height * unat bytes_per_pixel"
    and "length in_pixels < 2 ^ 32"
    and "length out_pixels = unat out_width * unat out_height * unat bytes_per_pixel"
  shows "eiml_crop_center in_pixels in_width in_height out_pixels out_width out_height
           bytes_per_pixel \<noteq> None"
proof -
  have "unat out_width \<le> unat in_width" "unat out_height \<le> unat in_height"
    using assms(1,2) by (simp_all add: word_le_nat_alt)
  then have "unat out_width * unat out_height \<le> unat in_width * unat in_height"
    by (rule mult_le_mono)
  then have "unat out_width * unat out_height * unat bytes_per_pixel
               \<le> unat in_width * unat in_height * unat bytes_per_pixel"
    by (rule mult_le_mono1)
  moreover have "unat in_width * unat in_height * unat bytes_per_pixel < 2 ^ 32"
    using assms(3,4) by simp
  ultimately have "unat out_width * unat out_height * unat bytes_per_pixel < 2 ^ 32"
    by (rule le_less_trans)
  then have "length out_pixels < 2 ^ 32" using assms(5) by simp
  with crop_center_result [OF assms(1,2) _ assms(4), of bytes_per_pixel out_pixels] assms(3,5)
  show ?thesis by simp
qed

theorem crop_center_in_bounds_witness:
  "eiml_crop_center [1, 2, 3, 4, 5, 6] 3 2 [0, 0] 2 1 1 \<noteq> None"
  using crop_center_in_bounds [where in_pixels = "[1, 2, 3, 4, 5, 6]" and in_width = 3
          and in_height = 2 and out_pixels = "[0, 0]" and out_width = 2 and out_height = 1
          and bytes_per_pixel = 1]
  by simp

section \<open>Properties of the pixel conversion\<close>

lemma byte_bits:
  assumes "n < 8"
  obtains "n = 0" | "n = 1" | "n = 2" | "n = 3" | "n = 4" | "n = 5" | "n = 6" | "n = (7::nat)"
  using assms by linarith

lemma rgb565_r_eq: "rgb565_r hi = hi AND 0xF8"
  unfolding rgb565_r_def
proof (rule bit_word_eqI)
  fix n assume "n < LENGTH(8)"
  then have "n < 8" by simp
  then show "bit (word_of_int (uint hi AND 0xF8) :: byte) n = bit (hi AND 0xF8) n"
    by (cases rule: byte_bits) (simp_all add: bit_simps)
qed

lemma rgb565_g_eq: "rgb565_g hi lo = push_bit 5 (hi AND 0x07) OR drop_bit 3 (lo AND 0xE0)"
  unfolding rgb565_g_def
proof (rule bit_word_eqI)
  fix n assume "n < LENGTH(8)"
  then have "n < 8" by simp
  then show "bit (word_of_int (push_bit 5 (uint hi) OR drop_bit 3 (uint lo AND 0xE0)) :: byte) n
     = bit (push_bit 5 (hi AND 0x07) OR drop_bit 3 (lo AND 0xE0)) n"
    by (cases rule: byte_bits) (simp_all add: bit_simps)
qed

lemma rgb565_b_eq: "rgb565_b lo = push_bit 3 lo"
  unfolding rgb565_b_def
proof (rule bit_word_eqI)
  fix n assume "n < LENGTH(8)"
  then have "n < 8" by simp
  then show "bit (word_of_int (push_bit 3 (uint lo)) :: byte) n = bit (push_bit 3 lo) n"
    by (cases rule: byte_bits) (simp_all add: bit_simps)
qed

lemma rgb565_pixels_converts:
  assumes "2 * unat n \<le> length inp" "3 * unat n \<le> length out" "length out < 2 ^ 32"
  shows "\<exists>out'. rgb565_pixels inp out n i = Some out' \<and> length out' = length out \<and>
           (\<forall>k < length out. k < 3 * unat i \<or> 3 * unat n \<le> k \<longrightarrow> out' ! k = out ! k) \<and>
           (\<forall>j r. unat i \<le> j \<and> j < unat n \<and> r < 3 \<longrightarrow>
               out' ! (3 * j + r) = rgb888_of (inp ! (2 * j)) (inp ! (2 * j + 1)) ! r)"
  using assms
proof (induction inp out n i rule: rgb565_pixels.induct)
  case (1 inp out n i)
  show ?case
  proof (cases "i < n")
    case False
    then have "unat n \<le> unat i" by (simp add: word_less_nat_alt)
    then show ?thesis using False by (auto simp: rgb565_pixels.simps)
  next
    case True
    then have lt: "unat i < unat n" by (simp add: word_less_nat_alt)
    define I where "I = unat i"
    have i2: "unat (2 * i) = 2 * I"
      using lt "1.prems" unat_mult_small [of 2 i] by (simp add: I_def)
    have i3: "unat (3 * i) = 3 * I"
      using lt "1.prems" unat_mult_small [of 3 i] by (simp add: I_def)
    have i21: "unat (2 * i + 1) = 2 * I + 1"
      using lt "1.prems" i2 by (simp add: unat_word_ariths I_def)
    have i31: "unat (3 * i + 1) = 3 * I + 1"
      using lt "1.prems" i3 by (simp add: unat_word_ariths I_def)
    have i32: "unat (3 * i + 2) = 3 * I + 2"
      using lt "1.prems" i3 by (simp add: unat_word_ariths I_def)
    define hi lo where "hi = inp ! (2 * I)" and "lo = inp ! (2 * I + 1)"
    define out1 out2 out3 where "out1 = out[3 * I := rgb565_r hi]"
      and "out2 = out1[3 * I + 1 := rgb565_g hi lo]"
      and "out3 = out2[3 * I + 2 := rgb565_b lo]"
    have len3: "length out3 = length out" by (simp add: out1_def out2_def out3_def)
    have r1: "rd inp (2 * i) = Some hi" and r2: "rd inp (2 * i + 1) = Some lo"
      using lt "1.prems" by (simp_all add: rd_def i2 i21 hi_def lo_def I_def)
    have w1: "wr out (3 * i) (rgb565_r hi) = Some out1"
      and w2: "wr out1 (3 * i + 1) (rgb565_g hi lo) = Some out2"
      and w3: "wr out2 (3 * i + 2) (rgb565_b lo) = Some out3"
      using lt "1.prems" by (simp_all add: wr_def i3 i31 i32 out1_def out2_def out3_def I_def)
    from "1.IH" [OF True r1 r2 refl refl refl w1 w2 w3] "1.prems" len3
    obtain out' where rec: "rgb565_pixels inp out3 n (i + 1) = Some out'"
      and len': "length out' = length out3"
      and keep': "\<forall>k < length out3. k < 3 * unat (i + 1) \<or> 3 * unat n \<le> k
                    \<longrightarrow> out' ! k = out3 ! k"
      and nth': "\<forall>j r. unat (i + 1) \<le> j \<and> j < unat n \<and> r < 3 \<longrightarrow>
               out' ! (3 * j + r) = rgb888_of (inp ! (2 * j)) (inp ! (2 * j + 1)) ! r"
      by auto
    have step: "rgb565_pixels inp out n i = Some out'"
      using True r1 r2 w1 w2 w3 rec by (subst rgb565_pixels.simps) (simp add: Let_def)
    have nxt: "unat (i + 1) = Suc I" using unat_inc [OF True] by (simp add: I_def)
    have keep: "\<forall>k < length out. k < 3 * unat i \<or> 3 * unat n \<le> k \<longrightarrow> out' ! k = out ! k"
      using keep' len3 nxt lt by (auto simp: out1_def out2_def out3_def I_def)
    have "out' ! (3 * j + r) = rgb888_of (inp ! (2 * j)) (inp ! (2 * j + 1)) ! r"
      if h: "unat i \<le> j" "j < unat n" "r < 3" for j r
    proof (cases "j = I")
      case False
      then show ?thesis using nth' h nxt by (simp add: I_def)
    next
      case True
      have k: "3 * I + r < length out" using h lt "1.prems" by (simp add: I_def)
      have "out' ! (3 * I + r) = out3 ! (3 * I + r)"
        using keep' k len3 nxt h(3) by simp
      also have "\<dots> = [rgb565_r hi, rgb565_g hi lo, rgb565_b lo] ! r"
      proof -
        consider "r = 0" | "r = 1" | "r = 2" using h(3) by linarith
        then show ?thesis using k by cases (simp_all add: out1_def out2_def out3_def)
      qed
      also have "[rgb565_r hi, rgb565_g hi lo, rgb565_b lo] = rgb888_of hi lo"
        by (simp add: rgb888_of_def rgb565_r_eq rgb565_g_eq rgb565_b_eq)
      finally show ?thesis using True by (simp add: hi_def lo_def)
    qed
    with step len' len3 keep show ?thesis by simp
  qed
qed

lemma rgb565_result:
  assumes "2 * unat num_pixels \<le> length in_pixels"
    and "3 * unat num_pixels \<le> length out_pixels" and "length out_pixels < 2 ^ 32"
  shows "eiml_rgb565_to_rgb888 in_pixels out_pixels num_pixels =
         Some (EIML_OK, rgb888_image in_pixels (unat num_pixels)
                          @ drop (3 * unat num_pixels) out_pixels)"
proof -
  define N where "N = unat num_pixels"
  define px where "px i = rgb888_of (in_pixels ! (2 * i)) (in_pixels ! (2 * i + 1))" for i
  from rgb565_pixels_converts [OF assms, of 0]
  obtain out' where run: "rgb565_pixels in_pixels out_pixels num_pixels 0 = Some out'"
    and len': "length out' = length out_pixels"
    and keep: "\<forall>k < length out_pixels. 3 * N \<le> k \<longrightarrow> out' ! k = out_pixels ! k"
    and nth': "\<forall>j r. j < N \<and> r < 3 \<longrightarrow> out' ! (3 * j + r) = px j ! r"
    by (auto simp: N_def px_def)
  have "px = (\<lambda>i. rgb888_of (in_pixels ! (2 * i)) (in_pixels ! (2 * i + 1)))"
    by (rule ext) (simp add: px_def)
  then have img: "rgb888_image in_pixels N = concat (map px [0..<N])"
    by (simp add: rgb888_image_def)
  have "\<forall>j < N. length (px j) = 3" by (simp add: px_def rgb888_of_def)
  from concat_rows [OF this]
  have ilen: "length (rgb888_image in_pixels N) = 3 * N"
    and inth: "\<forall>j r. j < N \<and> r < 3 \<longrightarrow> rgb888_image in_pixels N ! (3 * j + r) = px j ! r"
    using img by simp_all
  have "out' = rgb888_image in_pixels N @ drop (3 * N) out_pixels"
  proof (rule nth_equalityI)
    show "length out' = length (rgb888_image in_pixels N @ drop (3 * N) out_pixels)"
      using len' ilen assms(2) by (simp add: N_def)
  next
    fix k assume "k < length out'"
    then have k: "k < length out_pixels" using len' by simp
    show "out' ! k = (rgb888_image in_pixels N @ drop (3 * N) out_pixels) ! k"
    proof (cases "k < 3 * N")
      case False
      then show ?thesis using keep k ilen by (simp add: nth_append)
    next
      case True
      define j r where "j = k div 3" and "r = k mod 3"
      have dm: "k = 3 * j + r" by (simp add: j_def r_def)
      have "j < N" "r < 3" using True by (simp_all add: j_def r_def)
      then have "out' ! (3 * j + r) = rgb888_image in_pixels N ! (3 * j + r)"
        using nth' inth by simp
      then show ?thesis using True ilen dm by (simp add: nth_append)
    qed
  qed
  then show ?thesis using run by (simp add: eiml_rgb565_to_rgb888_def N_def)
qed

text \<open>
  \<^bold>\<open>C2.\<close> For \<open>num_pixels\<close> samples of two bytes in the input and room for
  \<open>num_pixels\<close> samples of three bytes in the output, a buffer of a 32-bit address space
  and so shorter than \<open>2 ^ 32\<close> bytes, \<open>eiml_rgb565_to_rgb888\<close> returns
  \<open>EIML_OK\<close> and writes, for each pixel \<open>i\<close>, red = high byte \<open>AND 0xF8\<close>, green = (low
  three bits of the high byte shifted left by 5) \<open>OR\<close> ((low byte \<open>AND 0xE0\<close>) shifted right
  by 3), blue = low byte shifted left by 3, each in eight bits. The high byte of sample
  \<open>i\<close> is byte \<open>2 * i\<close> of the input, the low byte is byte \<open>2 * i + 1\<close>. In particular the
  sample \<open>0xFFFF\<close> becomes \<open>(0xF8, 0xFC, 0xF8)\<close>.
\<close>

theorem rgb565_to_rgb888_correct:
  assumes "2 * unat num_pixels \<le> length in_pixels"
    and "3 * unat num_pixels \<le> length out_pixels" and "length out_pixels < 2 ^ 32"
  shows "(\<exists>out'. eiml_rgb565_to_rgb888 in_pixels out_pixels num_pixels = Some (EIML_OK, out') \<and>
            length out' = length out_pixels \<and>
            (\<forall>i < unat num_pixels.
               out' ! (3 * i) = in_pixels ! (2 * i) AND 0xF8 \<and>
               out' ! (3 * i + 1) =
                 push_bit 5 (in_pixels ! (2 * i) AND 0x07)
                   OR drop_bit 3 (in_pixels ! (2 * i + 1) AND 0xE0) \<and>
               out' ! (3 * i + 2) = push_bit 3 (in_pixels ! (2 * i + 1))))
         \<and> eiml_rgb565_to_rgb888 [0xFF, 0xFF] [a, b, c] 1 = Some (EIML_OK, [0xF8, 0xFC, 0xF8])"
proof
  from rgb565_pixels_converts [OF assms, of 0]
  obtain out' where run: "rgb565_pixels in_pixels out_pixels num_pixels 0 = Some out'"
    and len': "length out' = length out_pixels"
    and nth': "\<forall>j r. j < unat num_pixels \<and> r < 3 \<longrightarrow>
                 out' ! (3 * j + r) =
                 rgb888_of (in_pixels ! (2 * j)) (in_pixels ! (2 * j + 1)) ! r"
    by auto
  have "out' ! (3 * i) = in_pixels ! (2 * i) AND 0xF8 \<and>
        out' ! (3 * i + 1) =
          push_bit 5 (in_pixels ! (2 * i) AND 0x07)
            OR drop_bit 3 (in_pixels ! (2 * i + 1) AND 0xE0) \<and>
        out' ! (3 * i + 2) = push_bit 3 (in_pixels ! (2 * i + 1))"
    if "i < unat num_pixels" for i
    using nth' [rule_format, of i 0] nth' [rule_format, of i 1] nth' [rule_format, of i 2] that
    by (simp add: rgb888_of_def)
  then show "\<exists>out'. eiml_rgb565_to_rgb888 in_pixels out_pixels num_pixels = Some (EIML_OK, out') \<and>
            length out' = length out_pixels \<and>
            (\<forall>i < unat num_pixels.
               out' ! (3 * i) = in_pixels ! (2 * i) AND 0xF8 \<and>
               out' ! (3 * i + 1) =
                 push_bit 5 (in_pixels ! (2 * i) AND 0x07)
                   OR drop_bit 3 (in_pixels ! (2 * i + 1) AND 0xE0) \<and>
               out' ! (3 * i + 2) = push_bit 3 (in_pixels ! (2 * i + 1)))"
    using run len' by (simp add: eiml_rgb565_to_rgb888_def)
next
  have "eiml_rgb565_to_rgb888 [0xFF, 0xFF] [a, b, c] 1
          = Some (EIML_OK, rgb888_image [0xFF, 0xFF] (unat (1::uint)) @ drop (3 * unat (1::uint)) [a, b, c])"
    by (rule rgb565_result) simp_all
  then show "eiml_rgb565_to_rgb888 [0xFF, 0xFF] [a, b, c] 1 = Some (EIML_OK, [0xF8, 0xFC, 0xF8])"
    by (simp add: rgb888_image_def rgb888_of_def)
qed

theorem rgb565_to_rgb888_correct_witness:
  "\<exists>out'. eiml_rgb565_to_rgb888 [0xFF, 0xFF, 0x12, 0x34] [0, 0, 0, 0, 0, 0] 2 = Some (EIML_OK, out')
      \<and> length out' = 6
      \<and> out' ! 0 = 0xF8 \<and> out' ! 1 = 0xFC \<and> out' ! 2 = 0xF8
      \<and> out' ! 3 = 0x10 \<and> out' ! 4 = 0x44 \<and> out' ! 5 = 0xA0"
proof -
  define inp :: "byte list" where "inp = [0xFF, 0xFF, 0x12, 0x34]"
  define out :: "byte list" where "out = [0, 0, 0, 0, 0, 0]"
  have h1: "2 * unat (2 :: uint) \<le> length inp" by (simp add: inp_def)
  have h2: "3 * unat (2 :: uint) \<le> length out" by (simp add: out_def)
  have h3: "length out < 2 ^ 32" by (simp add: out_def)
  from rgb565_to_rgb888_correct [OF h1 h2 h3, THEN conjunct1]
  obtain out' where r: "eiml_rgb565_to_rgb888 inp out 2 = Some (EIML_OK, out')"
    and l: "length out' = length out"
    and n: "\<forall>i < unat (2 :: uint).
               out' ! (3 * i) = inp ! (2 * i) AND 0xF8 \<and>
               out' ! (3 * i + 1) =
                 push_bit 5 (inp ! (2 * i) AND 0x07) OR drop_bit 3 (inp ! (2 * i + 1) AND 0xE0) \<and>
               out' ! (3 * i + 2) = push_bit 3 (inp ! (2 * i + 1))"
    by (elim exE conjE)
  have i2: "out' ! 2 = out' ! Suc (Suc 0)" by (simp add: numeral_2_eq_2)
  from n [rule_format, of 0] n [rule_format, of 1] r l show ?thesis
    by (simp add: inp_def out_def i2)
qed

section \<open>Properties of the frame header\<close>

lemma and_255: "x AND 0xFF = take_bit 8 x" for x :: uint
  using take_bit_eq_mask [of 8 x] by (simp add: mask_eq_exp_minus_1)

lemma le_byte: "ucast (drop_bit (8 * k) w AND 0xFF) = (of_nat (unat w div 256 ^ k mod 256) :: byte)" for w :: uint
proof -
  have "unat (ucast (drop_bit (8 * k) w AND 0xFF) :: byte)
          = take_bit 8 (take_bit LENGTH(8) (drop_bit (8 * k) (unat w)))"
    by (simp only: and_255 unsigned_ucast_eq unsigned_take_bit_eq unat_drop_bit_eq)
  also have "\<dots> = unat w div 256 ^ k mod 256"
    by (simp add: take_bit_eq_mod drop_bit_eq_div power_mult)
  finally have "unat (ucast (drop_bit (8 * k) w AND 0xFF) :: byte) = unat w div 256 ^ k mod 256" .
  moreover have "unat (of_nat (unat w div 256 ^ k mod 256) :: byte) = unat w div 256 ^ k mod 256"
    by (simp add: unat_of_nat)
  ultimately show ?thesis by (simp add: word_unat_eq_iff)
qed

lemma le_bytes_shift:
  "le_bytes w = [ucast (drop_bit 0 w AND 0xFF), ucast (drop_bit 8 w AND 0xFF),
                 ucast (drop_bit 16 w AND 0xFF), ucast (drop_bit 24 w AND 0xFF)]"
  using le_byte [of 0 w] le_byte [of 1 w] le_byte [of 2 w] le_byte [of 3 w]
  by (simp add: le_bytes_def upt_rec)

lemma length_twelve:
  assumes "length (ys :: byte list) = 12"
  shows "\<exists>a0 a1 a2 a3 a4 a5 a6 a7 a8 a9 a10 a11.
           ys = [a0, a1, a2, a3, a4, a5, a6, a7, a8, a9, a10, a11]"
  using assms by (auto simp: eval_nat_numeral length_Suc_conv)

lemma twelve_bytes:
  assumes "12 \<le> length (xs :: byte list)"
  obtains a0 a1 a2 a3 a4 a5 a6 a7 a8 a9 a10 a11 rest
  where "xs = a0 # a1 # a2 # a3 # a4 # a5 # a6 # a7 # a8 # a9 # a10 # a11 # rest"
proof -
  have "length (take 12 xs) = 12" using assms by simp
  from length_twelve [OF this] obtain a0 a1 a2 a3 a4 a5 a6 a7 a8 a9 a10 a11
    where "take 12 xs = [a0, a1, a2, a3, a4, a5, a6, a7, a8, a9, a10, a11]"
    by (elim exE)
  then have "xs = a0 # a1 # a2 # a3 # a4 # a5 # a6 # a7 # a8 # a9 # a10 # a11 # drop 12 xs"
    using append_take_drop_id [of 12 xs] by simp
  then show ?thesis by (rule that)
qed

lemma generate_header_result:
  assumes "12 \<le> length out_header"
  shows "eiml_generate_header header out_header =
         Some (EIML_OK, [0xFF, 0xA0, 0xFF, format header] @ le_bytes (width header)
                          @ le_bytes (height header) @ drop 12 out_header)"
proof -
  from assms obtain a0 a1 a2 a3 a4 a5 a6 a7 a8 a9 a10 a11 rest
    where out: "out_header = a0 # a1 # a2 # a3 # a4 # a5 # a6 # a7 # a8 # a9 # a10 # a11 # rest"
    by (rule twelve_bytes)
  show ?thesis
    unfolding out le_bytes_shift
    by (simp add: eiml_generate_header_def copy_sof.simps copy_width.simps copy_height.simps
        EIML_SOF_SIZE_def EIML_SOF_def rd_int_def wr_int_def)
qed

text \<open>
  \<^bold>\<open>C3.\<close> For every format tag, width and height, \<open>eiml_generate_header\<close> returns
  \<open>EIML_OK\<close> and writes exactly the first 12 bytes of the output buffer: the marker
  \<open>0xFF, 0xA0, 0xFF\<close>, the format byte, the four bytes of the width and the four bytes of the
  height, least significant byte first. For format 1, width 64 and height 64 these are
  \<open>0xFF, 0xA0, 0xFF, 0x01, 0x40, 0, 0, 0, 0x40, 0, 0, 0\<close>.
\<close>

theorem generate_header_correct:
  assumes "12 \<le> length out_header"
  shows "eiml_generate_header header out_header =
           Some (EIML_OK, [0xFF, 0xA0, 0xFF, format header] @ le_bytes (width header)
                            @ le_bytes (height header) @ drop 12 out_header)
         \<and> length (le_bytes (width header)) = 4 \<and> length (le_bytes (height header)) = 4
         \<and> eiml_generate_header \<lparr>format = 1, width = 64, height = 64\<rparr> out_header =
           Some (EIML_OK, [0xFF, 0xA0, 0xFF, 0x01, 0x40, 0x00, 0x00, 0x00,
                           0x40, 0x00, 0x00, 0x00] @ drop 12 out_header)"
  using generate_header_result [OF assms, of header]
    generate_header_result [OF assms, of "\<lparr>format = 1, width = 64, height = 64\<rparr>"]
  by (simp add: le_bytes_def upt_rec)

theorem generate_header_correct_witness:
  "eiml_generate_header \<lparr>format = 1, width = 0x12345678, height = 0x1F0\<rparr> (replicate 12 0) =
     Some (EIML_OK, [0xFF, 0xA0, 0xFF, 0x01, 0x78, 0x56, 0x34, 0x12, 0xF0, 0x01, 0x00, 0x00])"
  using generate_header_correct [where out_header = "replicate 12 0"
          and header = "\<lparr>format = 1, width = 0x12345678, height = 0x1F0\<rparr>"]
  by (simp add: le_bytes_def upt_rec)

section \<open>Properties of the buffer sizes\<close>

lemma ceil_third: "nat \<lceil>real n / 3\<rceil> = (n + 2) div 3"
proof -
  have "\<lceil>real n / 3\<rceil> = \<lceil>of_int (int n) / (of_int 3 :: real)\<rceil>" by simp
  also have "\<dots> = - (- int n div 3)" by (rule ceiling_divide_eq_div)
  also have "\<dots> = (int n + 2) div 3" by presburger
  finally have "nat \<lceil>real n / 3\<rceil> = nat ((int n + 2) div 3)" by simp
  also have "\<dots> = (n + 2) div 3" by (simp add: nat_div_distrib nat_add_distrib)
  finally show ?thesis .
qed

lemma base64_len_formula: "base64_len n = (n + 2) div 3 * 4"
  by (simp add: base64_len_def ceil_third)

lemma unat_enc_len:
  assumes "unat n \<le> 3221225469"
  shows "unat (enc_len n) = (unat n + 2) div 3 * 4"
proof -
  have a: "unat (n + 2) = unat n + 2" using assms by (simp add: unat_word_ariths)
  have d: "unat ((n + 2) div 3) = (unat n + 2) div 3" by (simp add: unat_div a)
  have "(unat n + 2) div 3 * 4 < 2 ^ 32" using assms by simp
  then have "unat ((n + 2) div 3 * 4) = (unat n + 2) div 3 * 4"
    using d by (simp add: unat_word_ariths)
  then show ?thesis by (simp add: enc_len_def)
qed

lemma unat_enc_buf_size:
  assumes "unat n \<le> 3221225469"
  shows "unat (enc_buf_size n) = (unat n + 2) div 3 * 4 + 1"
proof -
  have "(unat n + 2) div 3 * 4 + 1 < 2 ^ 32" using assms by simp
  then show ?thesis using unat_enc_len [OF assms] by (simp add: enc_buf_size_def unat_word_ariths)
qed



lemma length_base64_text: "length (base64_text bs) = base64_len (length bs)"
  by (induction bs rule: base64_text.induct) (simp_all add: base64_len_formula, presburger)

lemma base64_text_examples:
  "base64_text [0x4D, 0x61, 0x6E] = ''TWFu''"
  "base64_text [0x4D, 0x61] = ''TWE=''"
  "base64_text [0x4D] = ''TQ==''"
  "base64_text frame_header = ''/6D/AUAAAABAAAAA''"
  by (simp_all add: base64_char_def base64_alphabet_def frame_header_def)

text \<open>
  \<^bold>\<open>C9.\<close> The array \<open>enc_header\<close> is declared with \<open>(EIML_HEADER_SIZE + 2) / 3 * 4\<close>, that
  is 16, bytes. The Base64 text of the 12-byte header takes 16 bytes and its terminator a
  seventeenth, so \<open>encode_base64\<close> stores the terminator one byte past the end of the array.
  The heap buffer \<open>enc_buf\<close> of the same sketch is allocated with the one byte more that the
  terminator needs.
\<close>

theorem enc_header_has_no_room:
  "\<not> base64_len (nat EIML_HEADER_SIZE) + 1 \<le> nat enc_header_size
   \<and> write_text (base64_text frame_header) (nat enc_header_size) = None
   \<and> base64_len (nat c888_img_bytes) + 1 \<le> unat nano33_enc_buf_size"
  by (simp add: base64_len_formula enc_header_size_def EIML_HEADER_SIZE_def write_text_def
        length_base64_text frame_header_def nano33_enc_buf_size_def nano33_enc_len_def
        c888_img_bytes_def crop_width_def crop_height_def rgb888_bytes_per_pixel_def)

section \<open>Properties of the main loops\<close>

lemma length_rgb888_image: "length (rgb888_image inp n) = 3 * n"
proof -
  have "\<forall>j < n. length (rgb888_of (inp ! (2 * j)) (inp ! (2 * j + 1))) = 3"
    by (simp add: rgb888_of_def)
  from concat_rows [OF this] show ?thesis by (simp add: rgb888_image_def)
qed

lemma c_string_text: "CHR 0x00 \<notin> set t \<Longrightarrow> c_string (t @ [CHR 0x00]) = t"
  by (induction t) (auto simp: c_string_def)

text \<open>
  With the buffers as declared, \<open>loop()\<close> of the array-based sketch reaches the encoding
  of the header: cropping, conversion and header generation succeed.
\<close>

lemma loop_nano33_steps:
  assumes "buffers_ok st" and "length frame = 38400" and "length header_buf = 12"
  shows "loop_nano33 encode_base64 frame header_buf st =
         (case write_text (encode_base64 (frame_body frame)) 16385 of
            None \<Rightarrow> None
          | Some enc_buf \<Rightarrow>
             (case write_text (encode_base64 frame_header) 16 of
                None \<Rightarrow> None
              | Some enc_header \<Rightarrow>
                  Some (st\<lparr>cam_img := frame, crop_img := centered_rect frame 160 120 64 64 2,
                            rgb888_img := frame_body frame, eiml_ret := EIML_OK\<rparr>,
                        [Print (c_string enc_header), Println (c_string enc_buf)])))"
proof -
  define crop where "crop = centered_rect frame 160 120 64 64 2"
  have lens: "length (cam_img st) = 38400" "length (crop_img st) = 8192"
    "length (rgb888_img st) = 12288"
    using assms(1)
    by (simp_all add: buffers_ok_def cam_width_def cam_height_def cam_bytes_per_pixel_def
          crop_width_def crop_height_def rgb888_bytes_per_pixel_def)
  have rf: "readFrame frame (cam_img st) = Some frame"
    using assms(2) lens by (simp add: readFrame_def)
  have clen: "length crop = 8192"
    using centered_rect_rows(1) [of 64 160 64 120 2 frame] assms(2) by (simp add: crop_def)
  have "eiml_crop_center frame 160 120 (crop_img st) 64 64 2 =
          Some (EIML_OK, centered_rect frame (unat (160 :: uint)) (unat (120 :: uint))
                  (unat (64 :: uint)) (unat (64 :: uint)) (unat (2 :: uint))
                @ drop (unat (64 :: uint) * unat (64 :: uint) * unat (2 :: uint)) (crop_img st))"
    using assms(2) lens by (intro crop_center_result) simp_all
  then have cr: "eiml_crop_center frame 160 120 (crop_img st) 64 64 2 = Some (EIML_OK, crop)"
    using lens by (simp add: crop_def)
  have "eiml_rgb565_to_rgb888 crop (rgb888_img st) 4096 =
          Some (EIML_OK, rgb888_image crop (unat (4096 :: uint))
                  @ drop (3 * unat (4096 :: uint)) (rgb888_img st))"
    using clen lens by (intro rgb565_result) simp_all
  then have cv: "eiml_rgb565_to_rgb888 crop (rgb888_img st) 4096
                   = Some (EIML_OK, frame_body frame)"
    using lens by (simp add: frame_body_def crop_def)
  have blen: "length (frame_body frame) = 12288"
    by (simp add: frame_body_def length_rgb888_image)
  have "eiml_generate_header \<lparr>format = 1, width = 64, height = 64\<rparr> header_buf =
          Some (EIML_OK, [0xFF, 0xA0, 0xFF, format \<lparr>format = 1, width = 64, height = 64\<rparr>]
                  @ le_bytes (width \<lparr>format = 1, width = 64 :: uint, height = 64 :: uint\<rparr>)
                  @ le_bytes (height \<lparr>format = 1 :: byte, width = 64 :: uint, height = 64\<rparr>)
                  @ drop 12 header_buf)"
    using assms(3) by (intro generate_header_result) simp
  then have gh: "eiml_generate_header \<lparr>format = 1, width = 64, height = 64\<rparr> header_buf
                   = Some (EIML_OK, frame_header)"
    using assms(3) by (simp add: le_bytes_def upt_rec frame_header_def)
  have sizes: "unat nano33_enc_buf_size = 16385" "nat enc_header_size = 16"
    by (simp_all add: nano33_enc_buf_size_def nano33_enc_len_def c888_img_bytes_def
          crop_width_def crop_height_def rgb888_bytes_per_pixel_def enc_header_size_def
          EIML_HEADER_SIZE_def)
  have hlen: "length frame_header = 12" by (simp add: frame_header_def)
  show ?thesis
    using rf cr cv gh blen hlen
    by (simp add: loop_nano33_def sizes cam_width_def cam_height_def cam_bytes_per_pixel_def
          crop_width_def crop_height_def rgb888_bytes_per_pixel_def c888_img_bytes_def
          EIML_HEADER_SIZE_def crop_def split: option.splits)
qed

text \<open>
  What the array-based sketch is written to send: were the header text to leave room for
  its terminator, an iteration would print the header text and then the line of the body
  text.
\<close>

lemma loop_nano33_sends:
  assumes "buffers_ok st" and "length frame = 38400" and "length header_buf = 12"
    and "length (encode_base64 (frame_body frame)) + 1 \<le> 16385"
    and "length (encode_base64 frame_header) + 1 \<le> 16"
    and "CHR 0x00 \<notin> set (encode_base64 (frame_body frame))"
    and "CHR 0x00 \<notin> set (encode_base64 frame_header)"
  shows "loop_nano33 encode_base64 frame header_buf st =
         Some (st\<lparr>cam_img := frame, crop_img := centered_rect frame 160 120 64 64 2,
                   rgb888_img := frame_body frame, eiml_ret := EIML_OK\<rparr>,
               [Print (encode_base64 frame_header), Println (encode_base64 (frame_body frame))])"
  using assms(4-7) loop_nano33_steps [OF assms(1-3), of encode_base64]
  by (simp add: write_text_def c_string_text)




text \<open>The two camera-driver sketches print one line, the text of the JPEG bytes.\<close>

lemma esp32_wire_format:
  "fmt2jpg (fb_buf fb) (fb_len fb) (fb_width fb) (fb_height fb) (fb_format fb) JPG_QAULITY
     = Some (jpg_buf, jpg_len) \<Longrightarrow>
   loop_esp32_cam_image_serial encode_base64 fmt2jpg (Some fb)
     = [Println (encode_base64 (take (unat jpg_len) jpg_buf))]"
  "loop_esp32_cam_image_capture_02 encode_base64 (Some fb)
     = [Println (encode_base64 (take (unat (fb_len fb)) (fb_buf fb)))]"
  "wire [Println text] = text @ [CHR 0x0D, CHR 0x0A]"
  by (simp_all add: loop_esp32_cam_image_serial_def loop_esp32_cam_image_capture_02_def)

text \<open>What the calls of an iteration print is what \<open>loop_esp32_cam_image_serial\<close> gives.\<close>

lemma serial_of_calls_esp32_cam_image_serial:
  "serial_of (calls_esp32_cam_image_serial encode_base64 fmt2jpg fb_get) =
     loop_esp32_cam_image_serial encode_base64 fmt2jpg fb_get"
  by (simp add: calls_esp32_cam_image_serial_def loop_esp32_cam_image_serial_def
           split: option.splits)

text \<open>
  \<^bold>\<open>C6.\<close> An iteration of \<open>esp32_cam_image_serial\<close> whose JPEG compression fails prints its
  diagnostic line and returns at once, without \<open>esp_camera_fb_return\<close>: the frame buffer it
  took from the driver stays taken when the next iteration starts. An iteration whose
  compression succeeds gives the frame buffer back.
\<close>

theorem compression_failure_keeps_frame_buffer:
  "(fmt2jpg (fb_buf fb) (fb_len fb) (fb_width fb) (fb_height fb) (fb_format fb) JPG_QAULITY
      = None \<longrightarrow>
      calls_esp32_cam_image_serial encode_base64 fmt2jpg (Some fb) =
        [Esp_camera_fb_get, Fmt2jpg,
         Serial_println ''ERROR: Could not convert image to JPEG format''] \<and>
      frame_buffer_kept (Some fb) (calls_esp32_cam_image_serial encode_base64 fmt2jpg (Some fb)))
   \<and> (fmt2jpg (fb_buf fb) (fb_len fb) (fb_width fb) (fb_height fb) (fb_format fb) JPG_QAULITY
      = Some (jpg_buf, jpg_len) \<longrightarrow>
      \<not> frame_buffer_kept (Some fb)
           (calls_esp32_cam_image_serial encode_base64 fmt2jpg (Some fb)))"
  by (simp add: calls_esp32_cam_image_serial_def frame_buffer_kept_def)

theorem compression_failure_keeps_frame_buffer_witness:
  "calls_esp32_cam_image_serial sample_text failing_jpg (Some sample_fb) =
     [Esp_camera_fb_get, Fmt2jpg,
      Serial_println ''ERROR: Could not convert image to JPEG format'']
   \<and> frame_buffer_kept (Some sample_fb)
         (calls_esp32_cam_image_serial sample_text failing_jpg (Some sample_fb))
   \<and> \<not> frame_buffer_kept (Some sample_fb)
         (calls_esp32_cam_image_serial sample_text sample_jpg (Some sample_fb))"
  using compression_failure_keeps_frame_buffer [where fmt2jpg = failing_jpg and fb = sample_fb
          and ?encode_base64.0 = sample_text]
    compression_failure_keeps_frame_buffer [where fmt2jpg = sample_jpg and fb = sample_fb
          and ?encode_base64.0 = sample_text and jpg_buf = "[1, 2, 3]" and jpg_len = 3]
  by (simp add: failing_jpg_def sample_jpg_def sample_fb_def calls_esp32_cam_image_serial_def
        frame_buffer_kept_def)

text \<open>
  \<^bold>\<open>C7.\<close> The diagnostics go to the same serial port as the frames, so an iteration
  whose frame acquisition fails does write to the transport: the line
  \<open>Camera capture failed\<close>.
\<close>

theorem acquisition_failure_writes_diagnostic:
  "loop_esp32_cam_image_serial sample_text sample_jpg None = [Println ''Camera capture failed'']
   \<and> loop_esp32_cam_image_serial sample_text sample_jpg None \<noteq> []
   \<and> loop_esp32_cam_image_capture_02 sample_text (None :: unit camera_fb option)
       = [Println ''Camera capture failed'']
   \<and> loop_esp32_cam_image_capture_02 sample_text (None :: unit camera_fb option) \<noteq> []"
  by (simp add: loop_esp32_cam_image_serial_def loop_esp32_cam_image_capture_02_def)

text \<open>
  \<^bold>\<open>C7, as amended.\<close> An iteration whose frame acquisition fails writes the diagnostic
  line \<open>Camera capture failed\<close> and nothing else, and the iterations before and after it
  write what they write without it.
\<close>

theorem acquisition_failure_only_logs:
  "run_esp32_cam_image_serial encode_base64 fmt2jpg (pre @ None # post) =
     run_esp32_cam_image_serial encode_base64 fmt2jpg pre
     @ [Println ''Camera capture failed'']
     @ run_esp32_cam_image_serial encode_base64 fmt2jpg post
   \<and> run_esp32_cam_image_capture_02 encode_base64 (pre @ None # post) =
     run_esp32_cam_image_capture_02 encode_base64 pre
     @ [Println ''Camera capture failed'']
     @ run_esp32_cam_image_capture_02 encode_base64 post"
  by (simp add: run_esp32_cam_image_serial_def run_esp32_cam_image_capture_02_def
        loop_esp32_cam_image_serial_def loop_esp32_cam_image_capture_02_def)

end
